theory Spec2Isabelle
  imports Main
begin

section \<open>Map snapshot and settings\<close>

text \<open>
  The planner reads a snapshot of the park map: \<open>map.size\<close> gives the grid and
  \<open>map.getTile(x, y)\<close> a tile, whose \<open>elements\<close> are the things standing on it.
  Of an element the planner reads its type, three ways a footpath can be flagged as a
  queue (\<open>el.isQueue === true\<close>, \<open>el.queue === true\<close>, the text \<open>queue\<close> inside
  \<open>String(el.flags || "")\<close>), \<open>String(el.object)\<close> and the ride it belongs to.
  JavaScript numbers that hold tile coordinates, hop counts and sizes are modelled as
  unbounded integers; node ids (array indices) as naturals.
\<close>

record element =
  el_type :: string
  el_isQueue :: bool
  el_queue :: bool
  el_flags :: string
  el_object :: string
  el_ride :: int

type_synonym tile = "element list"

type_synonym coord = "int \<times> int"

datatype error = TypeError

record settings =
  enableHandymen :: bool
  enableMechanics :: bool
  tilesPerHandyman :: int
  allowDeadEndRescue :: bool
  includeFacilitiesCuldesacs :: bool
  enableFoodCourts :: bool
  foodCourtStallThreshold :: int
  foodCourtRadius :: int
  foodCourtIncludeSeatingBins :: bool
  foodCourtMaxTiles :: int
  foodCourtTilesPerCleaner :: int
  mechMaxExits :: int
  mechMstCap :: int
  mechDiameterCap :: int
  staffInsufficient :: string

text \<open>\<open>s.indexOf(sub) >= 0\<close>: the text \<open>sub\<close> occurs in \<open>s\<close>.\<close>

fun startsWith :: "string \<Rightarrow> string \<Rightarrow> bool" where
  "startsWith [] s = True"
| "startsWith (c # cs) [] = False"
| "startsWith (c # cs) (d # ds) = (c = d \<and> startsWith cs ds)"

fun includesStr :: "string \<Rightarrow> string \<Rightarrow> bool" where
  "includesStr sub [] = startsWith sub []"
| "includesStr sub (d # ds) = (startsWith sub (d # ds) \<or> includesStr sub ds)"

section \<open>The plan state\<close>

text \<open>
  A JavaScript \<open>Set\<close> of node ids that the code iterates is a list without repetitions
  in insertion order; \<open>add\<close>, \<open>delete\<close> and \<open>has\<close> are the three functions below.
  The key \<open>x + "," + y\<close> of \<open>idByXY\<close> is the pair of the two integers.
  The arrays \<open>Plan.nodes\<close> and \<open>Plan.edges\<close> are lists read by node id; the ids that
  the passes read come from the plan itself (its valid set, its adjacency lists, the
  zones made from them), and the section on node ids shows that in a plan made by
  \<open>buildPathGraph\<close> they are all indices of entries that exist.
\<close>

definition set_add :: "'a \<Rightarrow> 'a list \<Rightarrow> 'a list" where
  "set_add v xs = (if v \<in> set xs then xs else xs @ [v])"

definition set_delete :: "'a \<Rightarrow> 'a list \<Rightarrow> 'a list" where
  "set_delete v xs = removeAll v xs"

record node =
  node_id :: nat
  node_x :: int
  node_y :: int
  node_deg :: nat
  attractor :: bool
  component :: int
  node_valid :: bool

record plan =
  nodes :: "node list"
  idByXY :: "coord \<rightharpoonup> nat"
  edges :: "nat list list"
  validNodeIds :: "nat list"
  attractorNodeIds :: "nat set"
  validPathTiles :: nat

section \<open>buildPathGraph\<close>

definition isQueueFlagged :: "element \<Rightarrow> bool" where
  "isQueueFlagged el = (el_isQueue el \<or> el_queue el \<or> includesStr ''queue'' (el_flags el))"

text \<open>
  The loop over \<open>tile.elements\<close> of one tile: \<open>hasPath\<close>, \<open>isQueue\<close> and the local
  set \<open>attractors\<close> of keys.
\<close>

fun scanElements :: "coord \<Rightarrow> tile \<Rightarrow> bool \<times> bool \<times> coord set \<Rightarrow> bool \<times> bool \<times> coord set" where
  "scanElements k [] st = st"
| "scanElements k (el # els) (hasPath, isQueue, attractors) =
     scanElements k els
       (if el_type el = ''footpath'' then True else hasPath,
        if el_type el = ''footpath'' \<and> isQueueFlagged el then True else isQueue,
        if el_type el = ''rideEntrance'' \<or> el_type el = ''rideExit''
        then insert k attractors else attractors)"

type_synonym scan_state = "node list \<times> (coord \<rightharpoonup> nat) \<times> coord set"

fun scanTile :: "(int \<Rightarrow> int \<Rightarrow> tile option) \<Rightarrow> coord \<Rightarrow> scan_state \<Rightarrow> scan_state" where
  "scanTile getTile (x, y) (ns, idm, attractors) =
     (case getTile x y of
        None \<Rightarrow> (ns, idm, attractors)
      | Some els \<Rightarrow>
          (case scanElements (x, y) els (False, False, attractors) of
             (hasPath, isQueue, attractors') \<Rightarrow>
               if hasPath \<and> \<not> isQueue
               then (ns @ [\<lparr>node_id = length ns, node_x = x, node_y = y, node_deg = 0,
                             attractor = ((x, y) \<in> attractors'), component = - 1,
                             node_valid = True\<rparr>],
                     idm((x, y) \<mapsto> length ns), attractors')
               else (ns, idm, attractors')))"

text \<open>The two nested loops \<open>for x < w\<close>, \<open>for y < h\<close> visit the tiles in this order.\<close>

definition grid :: "nat \<Rightarrow> nat \<Rightarrow> coord list" where
  "grid w h = concat (map (\<lambda>x. map (\<lambda>y. (int x, int y)) [0..<h]) [0..<w])"

definition nbrs :: "coord list" where
  "nbrs = [(1, 0), (- 1, 0), (0, 1), (0, - 1)]"

definition nodeEdges :: "(coord \<rightharpoonup> nat) \<Rightarrow> node \<Rightarrow> nat list" where
  "nodeEdges idm n =
     List.map_filter (\<lambda>d. idm (node_x n + fst d, node_y n + snd d)) nbrs"

text \<open>
  The optional pass over scenery. The test of the source,
  \<open>String(el.object)||"".toLowerCase().indexOf("bench")>=0 || String(el.object)||"".toLowerCase().indexOf("bin")>=0\<close>,
  parses as \<open>String(el.object) || (("").indexOf("bench") >= 0) || String(el.object) || (("").indexOf("bin") >= 0)\<close>:
  it holds exactly when \<open>String(el.object)\<close> is not the empty text.
\<close>

definition softAttractor :: "settings \<Rightarrow> element \<Rightarrow> bool" where
  "softAttractor S el =
     ((el_type el = ''smallScenery'' \<or> el_type el = ''largeScenery'')
      \<and> foodCourtIncludeSeatingBins S
      \<and> (el_object el \<noteq> [] \<or> includesStr ''bench'' [] \<or> el_object el \<noteq> [] \<or> includesStr ''bin'' []))"

fun markElements :: "settings \<Rightarrow> (coord \<rightharpoonup> nat) \<Rightarrow> coord \<Rightarrow> tile \<Rightarrow> node list \<Rightarrow> node list" where
  "markElements S idm k [] ns = ns"
| "markElements S idm k (el # els) ns =
     markElements S idm k els
       (if softAttractor S el
        then (case idm k of None \<Rightarrow> ns | Some i \<Rightarrow> ns[i := (ns ! i)\<lparr>attractor := True\<rparr>])
        else ns)"

text \<open>
  This second pass reads \<open>tile.elements\<close> without the \<open>if (!tile) continue\<close> of the
  first one: on a missing tile it raises a TypeError.
\<close>

fun markTiles :: "settings \<Rightarrow> (int \<Rightarrow> int \<Rightarrow> tile option) \<Rightarrow> (coord \<rightharpoonup> nat) \<Rightarrow> coord list \<Rightarrow> node list
    \<Rightarrow> error + node list" where
  "markTiles S getTile idm [] ns = Inr ns"
| "markTiles S getTile idm ((x, y) # ks) ns =
     (case getTile x y of
        None \<Rightarrow> Inl TypeError
      | Some els \<Rightarrow> markTiles S getTile idm ks (markElements S idm (x, y) els ns))"

definition buildPathGraph :: "settings \<Rightarrow> nat \<Rightarrow> nat \<Rightarrow> (int \<Rightarrow> int \<Rightarrow> tile option) \<Rightarrow> error + plan" where
  "buildPathGraph S w h getTile =
     (case fold (scanTile getTile) (grid w h) ([], Map.empty, {}) of
        (ns0, idm, attractors) \<Rightarrow>
          let es = map (nodeEdges idm) ns0;
              ns1 = map (\<lambda>n. n\<lparr>node_deg := length (nodeEdges idm n)\<rparr>) ns0
          in (case (if includeFacilitiesCuldesacs S then markTiles S getTile idm (grid w h) ns1
                    else Inr ns1) of
                Inl e \<Rightarrow> Inl e
              | Inr ns \<Rightarrow>
                  Inr \<lparr>nodes = ns, idByXY = idm, edges = es,
                       validNodeIds = map node_id ns,
                       attractorNodeIds = node_id ` set (filter attractor ns),
                       validPathTiles = 0\<rparr>))"

section \<open>pruneSceneryBranches\<close>

definition adjacentToAttractor :: "nat list list \<Rightarrow> nat set \<Rightarrow> nat \<Rightarrow> bool" where
  "adjacentToAttractor es attractors v =
     (v \<in> attractors \<or> (\<exists>nb \<in> set (es ! v). nb \<in> attractors))"

text \<open>The first loop: \<open>deg[id]++\<close> for every neighbour of \<open>id\<close> that is valid.\<close>

definition initDeg :: "nat list list \<Rightarrow> nat list \<Rightarrow> nat \<Rightarrow> int list" where
  "initDeg es valid n =
     fold (\<lambda>v deg. fold (\<lambda>nb deg. if nb \<in> set valid then deg[v := deg ! v + 1] else deg) (es ! v) deg)
       valid (replicate n 0)"

text \<open>
  The work list \<open>queue\<close> is used as a stack (\<open>push\<close>, \<open>pop\<close>); the model keeps it with
  the top first, so \<open>push\<close> is \<open>#\<close> and \<open>pop\<close> takes the head.
\<close>

definition initQueue :: "nat list list \<Rightarrow> nat set \<Rightarrow> nat list \<Rightarrow> int list \<Rightarrow> nat list" where
  "initQueue es attractors valid deg =
     fold (\<lambda>v q. if deg ! v \<le> 1 \<and> \<not> adjacentToAttractor es attractors v then v # q else q) valid []"

definition relax :: "nat list list \<Rightarrow> nat set \<Rightarrow> nat list \<Rightarrow> nat \<Rightarrow> int list \<times> nat list \<Rightarrow> int list \<times> nat list" where
  "relax es attractors valid nb st =
     (case st of (deg, q) \<Rightarrow>
        if nb \<in> set valid
        then (let deg' = deg[nb := deg ! nb - 1]
              in (deg', if deg' ! nb \<le> 1 \<and> \<not> adjacentToAttractor es attractors nb then nb # q else q))
        else (deg, q))"

function pruneLoop :: "nat list list \<Rightarrow> nat set \<Rightarrow> nat list \<Rightarrow> int list \<Rightarrow> nat list \<Rightarrow> nat list" where
  "pruneLoop es attractors valid deg [] = valid"
| "pruneLoop es attractors valid deg (v # q) =
     (if v \<notin> set valid then pruneLoop es attractors valid deg q
      else if adjacentToAttractor es attractors v then pruneLoop es attractors valid deg q
      else (case fold (relax es attractors (set_delete v valid)) (es ! v) (deg, q) of
              (deg', q') \<Rightarrow> pruneLoop es attractors (set_delete v valid) deg' q'))"
  by pat_completeness auto
termination
proof (relation "measures [\<lambda>(es, a, valid, deg, q). length valid, \<lambda>(es, a, valid, deg, q). length q]")
  show "wf (measures [\<lambda>(es, a, valid, deg, q). length valid, \<lambda>(es, a, valid, deg, q). length q])"
    by simp
next
  fix es :: "nat list list" and attractors :: "nat set" and valid :: "nat list"
    and deg :: "int list" and v :: nat and q x deg' q'
  assume "\<not> v \<notin> set valid"
  then have "length (removeAll v valid) < length valid"
    by (simp add: length_removeAll_less)
  then show "((es, attractors, set_delete v valid, deg', q'), (es, attractors, valid, deg, v # q))
      \<in> measures [\<lambda>(es, a, valid, deg, q). length valid, \<lambda>(es, a, valid, deg, q). length q]"
    by (simp add: set_delete_def)
qed simp_all

definition pruneSceneryBranches :: "plan \<Rightarrow> plan" where
  "pruneSceneryBranches p =
     (let deg = initDeg (edges p) (validNodeIds p) (length (nodes p));
          q = initQueue (edges p) (attractorNodeIds p) (validNodeIds p) deg;
          valid = pruneLoop (edges p) (attractorNodeIds p) (validNodeIds p) deg q
      in p\<lparr>validNodeIds := valid, validPathTiles := length valid\<rparr>)"

definition validCoords :: "plan \<Rightarrow> coord list" where
  "validCoords p = map (\<lambda>v. (node_x (nodes p ! v), node_y (nodes p ! v))) (validNodeIds p)"

text \<open>
  The degree of a node within a valid set, counted as the first loop of the pruning pass
  counts it: the neighbours \<open>nb\<close> of the node with \<open>valid.has(nb)\<close>.
\<close>

definition degreeIn :: "nat list list \<Rightarrow> nat list \<Rightarrow> nat \<Rightarrow> nat" where
  "degreeIn es valid v = length (filter (\<lambda>nb. nb \<in> set valid) (es ! v))"

section \<open>detectFoodCourts\<close>

text \<open>
  \<open>getLikelyShopEntranceCoords\<close> scans the grid for \<open>rideEntrance\<close> elements whose
  ride passes \<open>isStallRide\<close>; what \<open>isStallRide(rideCache[rid])\<close> answers for a ride
  id is a parameter. The scan reads \<open>tile.elements\<close> unguarded.
\<close>

fun getLikelyShopEntranceCoords :: "(int \<Rightarrow> bool) \<Rightarrow> (int \<Rightarrow> int \<Rightarrow> tile option) \<Rightarrow> coord list
    \<Rightarrow> error + coord list" where
  "getLikelyShopEntranceCoords isStallRide getTile [] = Inr []"
| "getLikelyShopEntranceCoords isStallRide getTile ((x, y) # ks) =
     (case getTile x y of
        None \<Rightarrow> Inl TypeError
      | Some els \<Rightarrow>
          (case getLikelyShopEntranceCoords isStallRide getTile ks of
             Inl e \<Rightarrow> Inl e
           | Inr coords \<Rightarrow>
               Inr (map (\<lambda>el. (x, y))
                      (filter (\<lambda>el. el_type el = ''rideEntrance'' \<and> isStallRide (el_ride el)) els)
                    @ coords)))"

record foodCourt =
  fc_tiles :: "nat list"
  fc_center :: coord
  fc_number :: nat
  staffNeeded :: int

text \<open>
  \<open>Math.ceil(a / b)\<close> for a positive divisor, and \<open>Math.round(a / b)\<close> (halves go
  up) for a positive divisor. The settings that divide are kept positive by the
  window's spinners, and a centroid is only taken of a set that has tiles.
\<close>

definition ceilDiv :: "int \<Rightarrow> int \<Rightarrow> int" where
  "ceilDiv a b = - ((- a) div b)"

definition roundDiv :: "int \<Rightarrow> int \<Rightarrow> int" where
  "roundDiv a b = (2 * a + b) div (2 * b)"

text \<open>One neighbour \<open>nb\<close> of the inner loop of the flood fill of a court.\<close>

definition courtVisit :: "plan \<Rightarrow> int \<Rightarrow> coord \<Rightarrow> nat \<Rightarrow> nat list \<times> nat list \<Rightarrow> nat list \<times> nat list" where
  "courtVisit p R2 c nb st =
     (case st of (visited, q) \<Rightarrow>
        if nb \<notin> set (validNodeIds p) then (visited, q)
        else if nb \<in> set visited then (visited, q)
        else (let dx = node_x (nodes p ! nb) - fst c; dy = node_y (nodes p ! nb) - snd c
              in if dx * dx + dy * dy > R2 then (visited, q)
                 else (set_add nb visited, q @ [nb])))"

definition unvisited :: "plan \<Rightarrow> nat list \<Rightarrow> nat" where
  "unvisited p visited = card (set (validNodeIds p) - set visited)"

lemma courtVisit_measure:
  "courtVisit p R2 c nb (visited, q) = (visited', q') \<Longrightarrow>
   unvisited p visited' + length q' = unvisited p visited + length q"
proof -
  assume a: "courtVisit p R2 c nb (visited, q) = (visited', q')"
  show ?thesis
  proof (cases "visited' = visited \<and> q' = q")
    case True
    then show ?thesis by simp
  next
    case False
    with a have nb: "nb \<in> set (validNodeIds p)" "nb \<notin> set visited"
      and r: "visited' = visited @ [nb]" "q' = q @ [nb]"
      by (auto simp: courtVisit_def Let_def set_add_def split: if_splits)
    have "set (validNodeIds p) - set visited = insert nb (set (validNodeIds p) - set visited')"
      using nb r by auto
    moreover have "nb \<notin> set (validNodeIds p) - set visited'" using r by simp
    ultimately have "card (set (validNodeIds p) - set visited)
        = Suc (card (set (validNodeIds p) - set visited'))"
      by (simp add: card_insert_if)
    then show ?thesis using r by (simp add: unvisited_def)
  qed
qed

lemma courtVisit_fold_measure:
  "fold (courtVisit p R2 c) nbs (visited, q) = (visited', q') \<Longrightarrow>
   unvisited p visited' + length q' = unvisited p visited + length q"
proof (induction nbs arbitrary: visited q)
  case Nil
  then show ?case by simp
next
  case (Cons nb nbs)
  obtain v1 q1 where s: "courtVisit p R2 c nb (visited, q) = (v1, q1)"
    by (cases "courtVisit p R2 c nb (visited, q)") auto
  with Cons.prems have "fold (courtVisit p R2 c) nbs (v1, q1) = (visited', q')" by simp
  from Cons.IH [OF this] courtVisit_measure [OF s] show ?case by simp
qed

text \<open>
  The flood fill of one court: \<open>while (q.length && tiles.size < maxTiles)\<close>, with
  \<open>q.shift()\<close> taking the head.
\<close>

function courtFlood :: "plan \<Rightarrow> int \<Rightarrow> int \<Rightarrow> coord \<Rightarrow> nat list \<Rightarrow> nat list \<Rightarrow> nat list
    \<Rightarrow> nat list \<times> nat list" where
  "courtFlood p maxTiles R2 c visited [] tiles = (visited, tiles)"
| "courtFlood p maxTiles R2 c visited (v # q) tiles =
     (if int (length tiles) < maxTiles
      then (case fold (courtVisit p R2 c) (edges p ! v) (visited, q) of
              (visited', q') \<Rightarrow> courtFlood p maxTiles R2 c visited' q' (set_add v tiles))
      else (visited, tiles))"
  by pat_completeness auto
termination
proof (relation "measure (\<lambda>(p, maxTiles, R2, c, visited, q, tiles). unvisited p visited + length q)")
  show "wf (measure (\<lambda>(p, maxTiles, R2, c, visited, q, tiles). unvisited p visited + length q))"
    by simp
next
  fix p :: plan and maxTiles R2 :: int and c :: coord and visited q tiles :: "nat list"
    and v :: nat and x visited' q'
  assume "(visited', q') = fold (courtVisit p R2 c) (edges p ! v) (visited, q)"
  then have "unvisited p visited' + length q' = unvisited p visited + length q"
    by (intro courtVisit_fold_measure) simp
  then show "((p, maxTiles, R2, c, visited', q', set_add v tiles), (p, maxTiles, R2, c, visited, v # q, tiles))
      \<in> measure (\<lambda>(p, maxTiles, R2, c, visited, q, tiles). unvisited p visited + length q)"
    by simp
qed

text \<open>
  One seed \<open>c\<close> of the loop over \<open>stallCenters\<close>. The state is the shared set
  \<open>visited\<close>, the courts found so far and the set \<open>reserved\<close>. The name
  \<open>Food Court n\<close> is kept as the number \<open>n\<close>.
\<close>

definition growCourt :: "plan \<Rightarrow> settings \<Rightarrow> coord \<Rightarrow> nat list \<times> foodCourt list \<times> nat list
    \<Rightarrow> nat list \<times> foodCourt list \<times> nat list" where
  "growCourt p S c st =
     (case st of (visited, courts, reserved) \<Rightarrow>
        (case idByXY p c of
           None \<Rightarrow> (visited, courts, reserved)
         | Some nid \<Rightarrow>
             if nid \<notin> set (validNodeIds p) then (visited, courts, reserved)
             else if nid \<in> set visited then (visited, courts, reserved)
             else (case courtFlood p (foodCourtMaxTiles S) (foodCourtRadius S * foodCourtRadius S) c
                          (set_add nid visited) [nid] [] of
                     (visited', tiles) \<Rightarrow>
                       if length tiles \<ge> 20
                       then (visited',
                             courts @ [\<lparr>fc_tiles = tiles, fc_center = c,
                                         fc_number = length courts + 1,
                                         staffNeeded = max 1 (ceilDiv (int (length tiles))
                                                                (foodCourtTilesPerCleaner S))\<rparr>],
                             fold set_add tiles reserved)
                       else (visited', courts, reserved))))"

definition stallCenters :: "settings \<Rightarrow> coord list \<Rightarrow> coord list" where
  "stallCenters S shopEntrances =
     filter (\<lambda>pt. int (length (filter (\<lambda>pt2.
                 (fst pt2 - fst pt) * (fst pt2 - fst pt) + (snd pt2 - snd pt) * (snd pt2 - snd pt)
                   \<le> foodCourtRadius S * foodCourtRadius S) shopEntrances))
               \<ge> foodCourtStallThreshold S) shopEntrances"

definition growCourts :: "plan \<Rightarrow> settings \<Rightarrow> coord list \<Rightarrow> nat list \<times> foodCourt list \<times> nat list" where
  "growCourts p S centers = fold (growCourt p S) centers ([], [], [])"

text \<open>The result is the pair of \<open>Plan.foodCourts\<close> and \<open>Plan.reservedFoodTiles\<close>.\<close>

definition detectFoodCourts :: "plan \<Rightarrow> settings \<Rightarrow> coord list \<Rightarrow> foodCourt list \<times> nat list" where
  "detectFoodCourts p S shopEntrances = snd (growCourts p S (stallCenters S shopEntrances))"

section \<open>Handyman zoning\<close>

definition centroidOfTiles :: "plan \<Rightarrow> nat list \<Rightarrow> coord" where
  "centroidOfTiles p ts =
     (let sx = sum_list (map (\<lambda>t. node_x (nodes p ! t)) ts);
          sy = sum_list (map (\<lambda>t. node_y (nodes p ! t)) ts);
          c = int (length ts)
      in (roundDiv sx c, roundDiv sy c))"

definition manhattan :: "coord \<Rightarrow> coord \<Rightarrow> int" where
  "manhattan a b = \<bar>fst a - fst b\<bar> + \<bar>snd a - snd b\<bar>"

definition nodeXY :: "plan \<Rightarrow> nat \<Rightarrow> coord" where
  "nodeXY p v = (node_x (nodes p ! v), node_y (nodes p ! v))"

text \<open>
  \<open>nearestZoneIndex\<close> answers \<open>-1\<close> when no zone qualifies; the model answers
  \<open>None\<close> then. The zones are the tile sets.
\<close>

definition nearestStep :: "plan \<Rightarrow> nat \<Rightarrow> nat list list \<Rightarrow> nat \<Rightarrow> nat option \<times> int \<Rightarrow> nat option \<times> int" where
  "nearestStep p v zones i st =
     (case st of (best, bestd) \<Rightarrow>
        if zones ! i = [] then (best, bestd)
        else (let d = manhattan (centroidOfTiles p (zones ! i)) (nodeXY p v)
              in if d < bestd then (Some i, d) else (best, bestd)))"

definition nearestZoneIndex :: "plan \<Rightarrow> nat \<Rightarrow> nat list list \<Rightarrow> nat option" where
  "nearestZoneIndex p v zones =
     (if zones = [] then None
      else fst (fold (nearestStep p v zones) [0..<length zones] (None, 1000000000)))"

subsection \<open>pickSeeds\<close>

text \<open>
  The first seed is \<open>ids[randint(0, ids.length - 1)]\<close>; the number drawn is the
  parameter \<open>r\<close>, reduced to the range of the indices.
\<close>

definition nearestSeedDist :: "plan \<Rightarrow> nat list \<Rightarrow> nat \<Rightarrow> int" where
  "nearestSeedDist p seeds v =
     fold (\<lambda>s dmin. let d = manhattan (nodeXY p s) (nodeXY p v) in if d < dmin then d else dmin)
       seeds 1000000000"

definition pickBest :: "plan \<Rightarrow> nat list \<Rightarrow> nat list \<Rightarrow> nat option \<times> int" where
  "pickBest p validSet seeds =
     fold (\<lambda>v (best, bestScore).
             let dmin = nearestSeedDist p seeds v
             in if dmin > bestScore then (Some v, dmin) else (best, bestScore))
       validSet (None, - 1)"

function pickLoop :: "plan \<Rightarrow> nat list \<Rightarrow> int \<Rightarrow> nat list \<Rightarrow> nat list" where
  "pickLoop p validSet k seeds =
     (if int (length seeds) < k
      then (case fst (pickBest p validSet seeds) of
              Some best \<Rightarrow> pickLoop p validSet k (seeds @ [best])
            | None \<Rightarrow> seeds)
      else seeds)"
  by pat_completeness auto
termination
  by (relation "measure (\<lambda>(p, validSet, k, seeds). nat (k - int (length seeds)))") auto

definition pickSeeds :: "plan \<Rightarrow> nat list \<Rightarrow> int \<Rightarrow> nat \<Rightarrow> nat list" where
  "pickSeeds p validSet k r =
     (if validSet = [] \<or> k \<le> 0 then []
      else pickLoop p validSet k [validSet ! (r mod length validSet)])"

subsection \<open>balancedFlood\<close>

text \<open>
  The state of the growth is the list \<open>zones\<close> of tile sets, the list \<open>frontier\<close> of
  queues and the map \<open>claimed\<close> from node id to zone index. The innermost loop runs
  over the neighbours of one dequeued tile and leaves by \<open>break\<close> when the zone has
  reached the target.
\<close>

type_synonym claim_state = "nat list \<times> (nat \<rightharpoonup> nat) \<times> nat list \<times> bool"

fun claimNbrs :: "nat list \<Rightarrow> int \<Rightarrow> nat \<Rightarrow> nat list \<Rightarrow> claim_state \<Rightarrow> claim_state" where
  "claimNbrs validSet target i [] st = st"
| "claimNbrs validSet target i (nb # nbs) (zone, claimed, next, progressed) =
     (if nb \<notin> set validSet then claimNbrs validSet target i nbs (zone, claimed, next, progressed)
      else if claimed nb \<noteq> None then claimNbrs validSet target i nbs (zone, claimed, next, progressed)
      else if int (length (set_add nb zone)) \<ge> target
           then (set_add nb zone, claimed(nb \<mapsto> i), next @ [nb], True)
           else claimNbrs validSet target i nbs (set_add nb zone, claimed(nb \<mapsto> i), next @ [nb], True))"

fun waveLoop :: "nat list list \<Rightarrow> nat list \<Rightarrow> int \<Rightarrow> nat \<Rightarrow> nat list \<Rightarrow> claim_state \<Rightarrow> claim_state" where
  "waveLoop es validSet target i [] st = st"
| "waveLoop es validSet target i (v # wave) (zone, claimed, next, progressed) =
     (if int (length zone) < target
      then waveLoop es validSet target i wave
             (claimNbrs validSet target i (es ! v) (zone, claimed, next, progressed))
      else (zone, claimed, next, progressed))"

type_synonym flood_state = "nat list list \<times> nat list list \<times> (nat \<rightharpoonup> nat) \<times> bool"

definition floodZone :: "nat list list \<Rightarrow> nat list \<Rightarrow> int \<Rightarrow> nat \<Rightarrow> flood_state \<Rightarrow> flood_state" where
  "floodZone es validSet target i st =
     (case st of (zones, frontier, claimed, progressed) \<Rightarrow>
        if int (length (zones ! i)) \<ge> target then (zones, frontier, claimed, progressed)
        else (case waveLoop es validSet target i (frontier ! i) (zones ! i, claimed, [], progressed) of
                (zone', claimed', next, progressed') \<Rightarrow>
                  (zones[i := zone'], frontier[i := next], claimed', progressed')))"

definition floodRound :: "nat list list \<Rightarrow> nat list \<Rightarrow> int \<Rightarrow> flood_state \<Rightarrow> flood_state" where
  "floodRound es validSet target st =
     fold (floodZone es validSet target) [0..<length (fst st)] st"

definition unclaimed :: "nat list \<Rightarrow> (nat \<rightharpoonup> nat) \<Rightarrow> nat" where
  "unclaimed validSet claimed = card {v \<in> set validSet. claimed v = None}"

text \<open>
  Progress of the growth: claiming never gives a tile back, and the flag \<open>progressed\<close>
  is only raised together with a claim of a tile of the candidate set that nobody had.
\<close>

definition progRel :: "nat list \<Rightarrow> (nat \<rightharpoonup> nat) \<Rightarrow> bool \<Rightarrow> (nat \<rightharpoonup> nat) \<Rightarrow> bool \<Rightarrow> bool" where
  "progRel validSet claimed pr claimed' pr' =
     (unclaimed validSet claimed' \<le> unclaimed validSet claimed
      \<and> (pr' \<longrightarrow> pr \<or> unclaimed validSet claimed' < unclaimed validSet claimed))"

lemma progRel_refl: "progRel validSet claimed pr claimed pr"
  by (simp add: progRel_def)

lemma progRel_trans:
  "progRel validSet c1 p1 c2 p2 \<Longrightarrow> progRel validSet c2 p2 c3 p3 \<Longrightarrow> progRel validSet c1 p1 c3 p3"
  unfolding progRel_def by linarith

lemma unclaimed_upd:
  assumes "nb \<in> set validSet" and "claimed nb = None"
  shows "unclaimed validSet (claimed(nb \<mapsto> i)) < unclaimed validSet claimed"
proof -
  have "{v \<in> set validSet. (claimed(nb \<mapsto> i)) v = None} \<subset> {v \<in> set validSet. claimed v = None}"
    using assms by auto
  then show ?thesis unfolding unclaimed_def by (intro psubset_card_mono) auto
qed

lemma progRel_claim:
  "nb \<in> set validSet \<Longrightarrow> claimed nb = None \<Longrightarrow> progRel validSet claimed pr (claimed(nb \<mapsto> i)) True"
  using unclaimed_upd [of nb validSet claimed i] by (simp add: progRel_def)

lemma claimNbrs_progress:
  "claimNbrs validSet target i nbs (zone, claimed, next, pr) = (zone', claimed', next', pr')
   \<Longrightarrow> progRel validSet claimed pr claimed' pr'"
proof (induction validSet target i nbs "(zone, claimed, next, pr)" arbitrary: zone claimed "next" pr
    rule: claimNbrs.induct)
  case (1 validSet target i)
  then show ?case by (simp add: progRel_refl)
next
  case (2 validSet target i nb nbs zone claimed "next" pr)
  show ?case
  proof (cases "nb \<notin> set validSet \<or> claimed nb \<noteq> None")
    case True
    then have "claimNbrs validSet target i nbs (zone, claimed, next, pr) = (zone', claimed', next', pr')"
      using "2.prems" by (auto split: if_splits)
    with True "2.hyps"(1,2) show ?thesis by auto
  next
    case False
    then have nb: "nb \<in> set validSet" "claimed nb = None" by auto
    have step: "progRel validSet claimed pr (claimed(nb \<mapsto> i)) True"
      using nb by (rule progRel_claim)
    show ?thesis
    proof (cases "int (length (set_add nb zone)) \<ge> target")
      case True
      with nb "2.prems" have "claimed' = claimed(nb \<mapsto> i)" "pr' = True" by auto
      with step show ?thesis by simp
    next
      case ge: False
      with nb "2.prems"
      have "claimNbrs validSet target i nbs (set_add nb zone, claimed(nb \<mapsto> i), next @ [nb], True)
          = (zone', claimed', next', pr')" by auto
      from "2.hyps"(3) [OF _ _ ge this] nb
      have "progRel validSet (claimed(nb \<mapsto> i)) True claimed' pr'" by auto
      with step show ?thesis by (rule progRel_trans)
    qed
  qed
qed

lemma waveLoop_progress:
  "waveLoop es validSet target i wave (zone, claimed, next, pr) = (zone', claimed', next', pr')
   \<Longrightarrow> progRel validSet claimed pr claimed' pr'"
proof (induction wave arbitrary: zone claimed "next" pr)
  case Nil
  then show ?case by (simp add: progRel_refl)
next
  case (Cons v wave)
  show ?case
  proof (cases "int (length zone) < target")
    case False
    with Cons.prems show ?thesis by (simp add: progRel_refl)
  next
    case True
    obtain z1 c1 n1 p1 where s: "claimNbrs validSet target i (es ! v) (zone, claimed, next, pr) = (z1, c1, n1, p1)"
      by (cases "claimNbrs validSet target i (es ! v) (zone, claimed, next, pr)") auto
    with True Cons.prems have "waveLoop es validSet target i wave (z1, c1, n1, p1) = (zone', claimed', next', pr')"
      by simp
    from claimNbrs_progress [OF s] Cons.IH [OF this] show ?thesis by (rule progRel_trans)
  qed
qed

lemma floodZone_progress:
  "floodZone es validSet target i (zones, frontier, claimed, pr) = (zones', frontier', claimed', pr')
   \<Longrightarrow> progRel validSet claimed pr claimed' pr' \<and> length zones' = length zones"
proof -
  assume a: "floodZone es validSet target i (zones, frontier, claimed, pr) = (zones', frontier', claimed', pr')"
  show ?thesis
  proof (cases "int (length (zones ! i)) \<ge> target")
    case True
    with a show ?thesis by (simp add: floodZone_def progRel_refl)
  next
    case False
    obtain z1 c1 n1 p1 where s: "waveLoop es validSet target i (frontier ! i) (zones ! i, claimed, [], pr) = (z1, c1, n1, p1)"
      by (cases "waveLoop es validSet target i (frontier ! i) (zones ! i, claimed, [], pr)") auto
    with False a have "claimed' = c1" "pr' = p1" "zones' = zones[i := z1]" by (simp_all add: floodZone_def)
    with waveLoop_progress [OF s] show ?thesis by simp
  qed
qed

lemma floodZones_progress:
  "fold (floodZone es validSet target) is (zones, frontier, claimed, pr) = (zones', frontier', claimed', pr')
   \<Longrightarrow> progRel validSet claimed pr claimed' pr' \<and> length zones' = length zones"
proof (induction "is" arbitrary: zones frontier claimed pr)
  case Nil
  then show ?case by (simp add: progRel_refl)
next
  case (Cons i "is")
  obtain z1 f1 c1 p1 where s: "floodZone es validSet target i (zones, frontier, claimed, pr) = (z1, f1, c1, p1)"
    by (cases "floodZone es validSet target i (zones, frontier, claimed, pr)") auto
  with Cons.prems have "fold (floodZone es validSet target) is (z1, f1, c1, p1) = (zones', frontier', claimed', pr')"
    by simp
  from Cons.IH [OF this] floodZone_progress [OF s] show ?case
    by (auto intro: progRel_trans)
qed

lemma floodRound_progress:
  "floodRound es validSet target (zones, frontier, claimed, False) = (zones', frontier', claimed', True)
   \<Longrightarrow> unclaimed validSet claimed' < unclaimed validSet claimed"
  using floodZones_progress [of es validSet target "[0..<length zones]" zones frontier claimed False
      zones' frontier' claimed' True]
  by (simp add: floodRound_def progRel_def)

text \<open>
  The outer \<open>while (true)\<close>: it leaves when a round claimed nothing or when every
  zone has met the target. A round that claims a tile lowers the number of candidate
  tiles without a zone, so the loop ends.
\<close>

function floodLoop :: "nat list list \<Rightarrow> nat list \<Rightarrow> int \<Rightarrow> nat list list \<times> nat list list \<times> (nat \<rightharpoonup> nat)
    \<Rightarrow> nat list list \<times> (nat \<rightharpoonup> nat)" where
  "floodLoop es validSet target (zones, frontier, claimed) =
     (case floodRound es validSet target (zones, frontier, claimed, False) of
        (zones', frontier', claimed', progressed) \<Rightarrow>
          if \<not> progressed then (zones', claimed')
          else if list_all (\<lambda>z. \<not> int (length z) < target) zones' then (zones', claimed')
          else floodLoop es validSet target (zones', frontier', claimed'))"
  by pat_completeness auto
termination
proof (relation "measure (\<lambda>(es, validSet, target, zones, frontier, claimed). unclaimed validSet claimed)")
  show "wf (measure (\<lambda>(es, validSet, target, zones, frontier, claimed). unclaimed validSet claimed))"
    by simp
next
  fix es :: "nat list list" and validSet :: "nat list" and target :: int
    and zones frontier :: "nat list list" and claimed :: "nat \<rightharpoonup> nat"
    and x zones' y frontier' z claimed' progressed
  assume "(zones', y) = floodRound es validSet target (zones, frontier, claimed, False)"
    "(frontier', z) = y" "(claimed', progressed) = z" "\<not> \<not> progressed"
  then have "floodRound es validSet target (zones, frontier, claimed, False) = (zones', frontier', claimed', True)"
    by simp
  from floodRound_progress [OF this]
  show "((es, validSet, target, zones', frontier', claimed'), (es, validSet, target, zones, frontier, claimed))
      \<in> measure (\<lambda>(es, validSet, target, zones, frontier, claimed). unclaimed validSet claimed)"
    by simp
qed

definition claimSeed :: "nat list \<Rightarrow> nat list \<Rightarrow> nat \<Rightarrow> nat list list \<times> (nat \<rightharpoonup> nat)
    \<Rightarrow> nat list list \<times> (nat \<rightharpoonup> nat)" where
  "claimSeed validSet seeds i st =
     (case st of (zones, claimed) \<Rightarrow>
        if seeds ! i \<notin> set validSet then (zones, claimed)
        else (zones[i := set_add (seeds ! i) (zones ! i)], claimed(seeds ! i \<mapsto> i)))"

definition assignLeftover :: "plan \<Rightarrow> nat \<Rightarrow> nat list list \<Rightarrow> nat list list" where
  "assignLeftover p v zones =
     (case nearestZoneIndex p v zones of
        None \<Rightarrow> zones
      | Some z \<Rightarrow> zones[z := set_add v (zones ! z)])"

definition balancedFlood :: "plan \<Rightarrow> nat list \<Rightarrow> nat list \<Rightarrow> int \<Rightarrow> nat list list" where
  "balancedFlood p validSet seeds target =
     (case fold (claimSeed validSet seeds) [0..<length seeds] (map (\<lambda>s. []) seeds, Map.empty) of
        (zones0, claimed0) \<Rightarrow>
          (case floodLoop (edges p) validSet target (zones0, map (\<lambda>s. [s]) seeds, claimed0) of
             (zones, claimed) \<Rightarrow>
               fold (assignLeftover p) (filter (\<lambda>v. claimed v = None) validSet) zones))"

subsection \<open>rescueDeadEnds\<close>

text \<open>A zone name is \<open>Food Court n\<close>, taken over from a court, or \<open>Zone n\<close>.\<close>

datatype zoneName = FoodCourtName nat | ZoneName nat

record zone =
  tiles :: "nat list"
  centroid :: coord
  zone_name :: zoneName

definition zonedTiles :: "zone list \<Rightarrow> nat list" where
  "zonedTiles zones = fold (\<lambda>z valid. fold set_add (tiles z) valid) zones []"

text \<open>
  The search for a neighbour of the leaf that is in a zone: the zone index of the first
  such neighbour, in the order of the adjacency list, and the first zone that has it.
\<close>

definition zoneOfTile :: "zone list \<Rightarrow> nat \<Rightarrow> nat option" where
  "zoneOfTile zones nb = List.find (\<lambda>zi. nb \<in> set (tiles (zones ! zi))) [0..<length zones]"

fun junctionZone :: "zone list \<Rightarrow> nat list \<Rightarrow> nat option" where
  "junctionZone zones [] = None"
| "junctionZone zones (nb # nbs) =
     (case zoneOfTile zones nb of Some zi \<Rightarrow> Some zi | None \<Rightarrow> junctionZone zones nbs)"

definition rescueLeaf :: "nat list list \<Rightarrow> nat \<Rightarrow> zone list \<Rightarrow> zone list" where
  "rescueLeaf es leaf zones =
     (if \<not> (\<exists>z \<in> set zones. leaf \<in> set (tiles z))
      then (case junctionZone zones (es ! leaf) of
              None \<Rightarrow> zones
            | Some zIndex \<Rightarrow> zones[zIndex := (zones ! zIndex)\<lparr>tiles := set_add leaf (tiles (zones ! zIndex))\<rparr>])
      else zones)"

definition rescueDeadEnds :: "nat list list \<Rightarrow> zone list \<Rightarrow> zone list" where
  "rescueDeadEnds es zones =
     (let valid = zonedTiles zones;
          leaves = filter (\<lambda>v. degreeIn es valid v \<le> 1) valid
      in fold (rescueLeaf es) leaves zones)"

subsection \<open>buildHandymanZones\<close>

text \<open>
  The candidate pool: the valid nodes that are not reserved for a food court. The
  number of handymen already in the park (\<open>getAllHandymen().length\<close>) and the number
  drawn for the first seed are parameters; what \<open>tryHireStaff\<close> answers is added to a
  local that is not read again.
\<close>

definition candidateTiles :: "plan \<Rightarrow> nat list \<Rightarrow> nat list" where
  "candidateTiles p reserved = filter (\<lambda>v. v \<notin> set reserved) (validNodeIds p)"

definition courtZone :: "plan \<Rightarrow> foodCourt \<Rightarrow> zone list \<times> nat list \<Rightarrow> zone list \<times> nat list" where
  "courtZone p court st =
     (case st of (zones, valid) \<Rightarrow>
        (let ztiles = fold set_add (filter (\<lambda>t. t \<in> set (validNodeIds p)) (fc_tiles court)) []
         in if ztiles = [] then (zones, valid)
            else (zones @ [\<lparr>tiles = ztiles, centroid = centroidOfTiles p ztiles,
                            zone_name = FoodCourtName (fc_number court)\<rparr>],
                  fold set_delete ztiles valid)))"

definition pushGrown :: "plan \<Rightarrow> nat list \<Rightarrow> zone list \<Rightarrow> zone list" where
  "pushGrown p ts zones =
     (if ts = [] then zones
      else zones @ [\<lparr>tiles = ts, centroid = centroidOfTiles p ts,
                      zone_name = ZoneName (length zones + 1)\<rparr>])"

text \<open>
  The zones taken over from the food courts together with the pool that is left for
  the general zones, the seeds, and the tile sets that \<open>balancedFlood\<close> grows from them.
\<close>

definition handymanPool :: "plan \<Rightarrow> settings \<Rightarrow> foodCourt list \<Rightarrow> nat list \<Rightarrow> zone list \<times> nat list" where
  "handymanPool p S courts reserved =
     (if enableFoodCourts S \<and> courts \<noteq> []
      then fold (courtZone p) courts ([], candidateTiles p reserved)
      else ([], candidateTiles p reserved))"

definition handymanSeeds :: "plan \<Rightarrow> settings \<Rightarrow> nat list \<Rightarrow> nat \<Rightarrow> nat \<Rightarrow> nat list" where
  "handymanSeeds p S valid available r =
     (let needed0 = (if \<not> enableHandymen S then 0
                     else ceilDiv (int (length valid)) (tilesPerHandyman S));
          needed1 = (if staffInsufficient S = ''Assign only existing''
                     then min needed0 (int available) else needed0);
          needed = (if needed1 \<le> 0 \<and> length valid > 0 then 1 else needed1)
      in pickSeeds p valid (max needed 0) r)"

definition grownZones :: "plan \<Rightarrow> settings \<Rightarrow> foodCourt list \<Rightarrow> nat list \<Rightarrow> nat \<Rightarrow> nat \<Rightarrow> nat list list" where
  "grownZones p S courts reserved available r =
     (case handymanPool p S courts reserved of
        (zones0, valid) \<Rightarrow>
          balancedFlood p valid (handymanSeeds p S valid available r) (tilesPerHandyman S))"

definition buildHandymanZones :: "plan \<Rightarrow> settings \<Rightarrow> foodCourt list \<Rightarrow> nat list \<Rightarrow> nat \<Rightarrow> nat \<Rightarrow> zone list" where
  "buildHandymanZones p S courts reserved available r =
     (if candidateTiles p reserved = [] then []
      else (let zones = fold (pushGrown p) (grownZones p S courts reserved available r)
                          (fst (handymanPool p S courts reserved))
            in if allowDeadEndRescue S then rescueDeadEnds (edges p) zones else zones))"

section \<open>Mechanic routes\<close>

subsection \<open>Exits and the distance matrix\<close>

text \<open>
  An exit point records the node, the tile and the ride of a \<open>rideExit\<close> element that
  stands on a valid node. (The ride name shown to the user is left out.) The scan reads
  \<open>tile.elements\<close> unguarded.
\<close>

record exitPoint =
  ex_nodeId :: nat
  ex_x :: int
  ex_y :: int
  ex_rideId :: int

definition tileExits :: "plan \<Rightarrow> coord \<Rightarrow> tile \<Rightarrow> exitPoint list" where
  "tileExits p k els =
     (case idByXY p k of
        None \<Rightarrow> []
      | Some nid \<Rightarrow>
          if nid \<notin> set (validNodeIds p) then []
          else map (\<lambda>el. \<lparr>ex_nodeId = nid, ex_x = fst k, ex_y = snd k, ex_rideId = el_ride el\<rparr>)
                 (filter (\<lambda>el. el_type el = ''rideExit'') els))"

fun scanExits :: "plan \<Rightarrow> (int \<Rightarrow> int \<Rightarrow> tile option) \<Rightarrow> coord list \<Rightarrow> error + exitPoint list" where
  "scanExits p getTile [] = Inr []"
| "scanExits p getTile ((x, y) # ks) =
     (case getTile x y of
        None \<Rightarrow> Inl TypeError
      | Some els \<Rightarrow>
          (case scanExits p getTile ks of
             Inl e \<Rightarrow> Inl e
           | Inr exits \<Rightarrow> Inr (tileExits p (x, y) els @ exits)))"

text \<open>
  \<open>bfsDistances\<close>: the objects \<open>dist\<close> and \<open>prev\<close> are maps from node id. A node
  that is taken from the queue has a distance, the one it got when it was queued.
\<close>

type_synonym bfs_state = "(nat \<rightharpoonup> int) \<times> (nat \<rightharpoonup> nat) \<times> nat list"

definition bfsVisit :: "plan \<Rightarrow> nat \<Rightarrow> nat \<Rightarrow> bfs_state \<Rightarrow> bfs_state" where
  "bfsVisit p v nb st =
     (case st of (dist, prev, q) \<Rightarrow>
        if nb \<notin> set (validNodeIds p) then (dist, prev, q)
        else if dist nb \<noteq> None then (dist, prev, q)
        else (dist(nb \<mapsto> the (dist v) + 1), prev(nb \<mapsto> v), q @ [nb]))"

definition undiscovered :: "plan \<Rightarrow> (nat \<rightharpoonup> int) \<Rightarrow> nat" where
  "undiscovered p dist = card {v \<in> set (validNodeIds p). dist v = None}"

lemma bfsVisit_measure:
  "bfsVisit p v nb (dist, prev, q) = (dist', prev', q') \<Longrightarrow>
   undiscovered p dist' + length q' = undiscovered p dist + length q"
proof -
  assume a: "bfsVisit p v nb (dist, prev, q) = (dist', prev', q')"
  show ?thesis
  proof (cases "nb \<in> set (validNodeIds p) \<and> dist nb = None")
    case False
    with a show ?thesis by (auto simp: bfsVisit_def split: if_splits)
  next
    case True
    with a have r: "dist' = dist(nb \<mapsto> the (dist v) + 1)" "q' = q @ [nb]"
      by (auto simp: bfsVisit_def)
    have "{u \<in> set (validNodeIds p). dist u = None}
        = insert nb {u \<in> set (validNodeIds p). dist' u = None}"
      using True r by auto
    moreover have "nb \<notin> {u \<in> set (validNodeIds p). dist' u = None}" using r by simp
    ultimately have "card {u \<in> set (validNodeIds p). dist u = None}
        = Suc (card {u \<in> set (validNodeIds p). dist' u = None})"
      by (simp add: card_insert_if)
    then show ?thesis using r by (simp add: undiscovered_def)
  qed
qed

lemma bfsVisit_fold_measure:
  "fold (bfsVisit p v) nbs (dist, prev, q) = (dist', prev', q') \<Longrightarrow>
   undiscovered p dist' + length q' = undiscovered p dist + length q"
proof (induction nbs arbitrary: dist prev q)
  case Nil
  then show ?case by simp
next
  case (Cons nb nbs)
  obtain d1 p1 q1 where s: "bfsVisit p v nb (dist, prev, q) = (d1, p1, q1)"
    by (cases "bfsVisit p v nb (dist, prev, q)") auto
  with Cons.prems have "fold (bfsVisit p v) nbs (d1, p1, q1) = (dist', prev', q')" by simp
  from Cons.IH [OF this] bfsVisit_measure [OF s] show ?case by simp
qed

function bfsLoop :: "plan \<Rightarrow> (nat \<rightharpoonup> int) \<Rightarrow> (nat \<rightharpoonup> nat) \<Rightarrow> nat list
    \<Rightarrow> (nat \<rightharpoonup> int) \<times> (nat \<rightharpoonup> nat)" where
  "bfsLoop p dist prev [] = (dist, prev)"
| "bfsLoop p dist prev (v # q) =
     (case fold (bfsVisit p v) (edges p ! v) (dist, prev, q) of
        (dist', prev', q') \<Rightarrow> bfsLoop p dist' prev' q')"
  by pat_completeness auto
termination
proof (relation "measure (\<lambda>(p, dist, prev, q). undiscovered p dist + length q)")
  show "wf (measure (\<lambda>(p, dist, prev, q). undiscovered p dist + length q))" by simp
next
  fix p :: plan and dist :: "nat \<rightharpoonup> int" and prev :: "nat \<rightharpoonup> nat" and v :: nat
    and q :: "nat list" and x dist' y prev' q'
  assume "(dist', y) = fold (bfsVisit p v) (edges p ! v) (dist, prev, q)" "(prev', q') = y"
  then have "fold (bfsVisit p v) (edges p ! v) (dist, prev, q) = (dist', prev', q')" by simp
  from bfsVisit_fold_measure [OF this]
  show "((p, dist', prev', q'), (p, dist, prev, v # q))
      \<in> measure (\<lambda>(p, dist, prev, q). undiscovered p dist + length q)"
    by simp
qed

definition bfsDistances :: "plan \<Rightarrow> nat \<Rightarrow> (nat \<rightharpoonup> int) \<times> (nat \<rightharpoonup> nat)" where
  "bfsDistances p startId = bfsLoop p [startId \<mapsto> 0] Map.empty [startId]"

text \<open>
  \<open>d.dist[b] || 1e9\<close>: the sentinel stands in for every falsy entry, a missing one
  and the number \<open>0\<close>.
\<close>

definition orSentinel :: "int option \<Rightarrow> int" where
  "orSentinel d = (case d of None \<Rightarrow> 1000000000 | Some k \<Rightarrow> if k = 0 then 1000000000 else k)"

definition distMatrix :: "plan \<Rightarrow> exitPoint list \<Rightarrow> int list list" where
  "distMatrix p exits =
     map (\<lambda>i. map (\<lambda>j. orSentinel (fst (bfsDistances p (ex_nodeId (exits ! i))) (ex_nodeId (exits ! j))))
                 [0..<length exits])
       [0..<length exits]"

subsection \<open>Clustering the exits\<close>

text \<open>
  A cluster is a list of exit indices; \<open>dist\<close> is the matrix, read as
  \<open>dist[u][v]\<close>.
\<close>

definition diameterWith :: "nat list \<Rightarrow> nat \<Rightarrow> int list list \<Rightarrow> int" where
  "diameterWith arr idx dist =
     (let s = arr @ [idx]
      in fold (\<lambda>i dia. fold (\<lambda>j dia. max dia (dist ! (s ! i) ! (s ! j))) [i + 1..<length s] dia)
           [0..<length s] 0)"

definition nearestUsed :: "int list list \<Rightarrow> nat list \<Rightarrow> nat \<Rightarrow> int" where
  "nearestUsed dist used v = fold (\<lambda>u nd. min nd (dist ! u ! v)) used 1000000000"

definition approxPick :: "int list list \<Rightarrow> nat list \<Rightarrow> nat list \<Rightarrow> int \<times> nat option" where
  "approxPick dist list used =
     fold (\<lambda>v (best, bestV).
             if v \<in> set used then (best, bestV)
             else (let nd = nearestUsed dist used v
                   in if nd < best then (nd, Some v) else (best, bestV)))
       list (1000000000, None)"

lemma approxPick_fresh_gen:
  "fold (\<lambda>v (best, bestV).
             if v \<in> set used then (best, bestV)
             else (let nd = nearestUsed dist used v
                   in if nd < best then (nd, Some v) else (best, bestV)))
       vs (b0, v0) = (b, Some v) \<Longrightarrow> v0 = Some v \<or> v \<notin> set used"
  by (induction vs arbitrary: b0 v0) (auto simp: Let_def split: if_splits)

lemma approxPick_fresh: "approxPick dist list used = (best, Some v) \<Longrightarrow> v \<notin> set used"
  unfolding approxPick_def
  using approxPick_fresh_gen [where used = used and dist = dist and vs = list
      and ?b0.0 = 1000000000 and ?v0.0 = None and b = best and v = v]
  by simp

function approxLoop :: "int list list \<Rightarrow> nat list \<Rightarrow> nat list \<Rightarrow> int \<Rightarrow> int" where
  "approxLoop dist list used len =
     (if length used < length list
      then (case approxPick dist list used of
              (best, None) \<Rightarrow> len
            | (best, Some bestV) \<Rightarrow> approxLoop dist list (set_add bestV used) (len + best))
      else len)"
  by pat_completeness auto
termination
proof (relation "measure (\<lambda>(dist, list, used, len). length list - length used)")
  show "wf (measure (\<lambda>(dist, list, used, len). length list - length used))" by simp
next
  fix dist :: "int list list" and list used :: "nat list" and len :: int and x best y bestV
  assume l: "length used < length list" and "(best, y) = approxPick dist list used" "y = Some bestV"
  then have "approxPick dist list used = (best, Some bestV)" by simp
  then have "bestV \<notin> set used" by (rule approxPick_fresh)
  then have "length (set_add bestV used) = Suc (length used)" by (simp add: set_add_def)
  with l show "((dist, list, set_add bestV used, len + best), (dist, list, used, len))
      \<in> measure (\<lambda>(dist, list, used, len). length list - length used)"
    by simp
qed

definition mstLengthApprox :: "nat list \<Rightarrow> int list list \<Rightarrow> int" where
  "mstLengthApprox list dist =
     (case list of [] \<Rightarrow> 0 | first # rest \<Rightarrow> approxLoop dist list [first] 0)"

text \<open>
  The choice of the next member: among the unassigned exits that keep the diameter
  within the cap, the first with the least distance to a member.
\<close>

definition pickNearest :: "settings \<Rightarrow> int list list \<Rightarrow> nat list \<Rightarrow> nat list \<Rightarrow> nat option \<times> int" where
  "pickNearest S dist current unassigned =
     fold (\<lambda>idx (best, bestd).
             if diameterWith current idx dist > mechDiameterCap S then (best, bestd)
             else (let nd = fold (\<lambda>c nd. min nd (dist ! idx ! c)) current 1000000000
                   in if nd < bestd then (Some idx, nd) else (best, bestd)))
       unassigned (None, 1000000000)"

lemma pickNearest_member_gen:
  "fold (\<lambda>idx (best, bestd).
             if diameterWith current idx dist > cap then (best, bestd)
             else (let nd = fold (\<lambda>c nd. min nd (dist ! idx ! c)) current 1000000000
                   in if nd < bestd then (Some idx, nd) else (best, bestd)))
       us (b0, d0) = (Some b, d) \<Longrightarrow> b0 = Some b \<or> b \<in> set us"
  by (induction us arbitrary: b0 d0) (auto simp: Let_def split: if_splits)

lemma pickNearest_member:
  "fst (pickNearest S dist current unassigned) = Some b \<Longrightarrow> b \<in> set unassigned"
  unfolding pickNearest_def
  using pickNearest_member_gen [where current = current and dist = dist and cap = "mechDiameterCap S"
      and us = unassigned and ?b0.0 = None and ?d0.0 = 1000000000 and b = b]
  by (cases "fold (\<lambda>idx (best, bestd).
             if diameterWith current idx dist > mechDiameterCap S then (best, bestd)
             else (let nd = fold (\<lambda>c nd. min nd (dist ! idx ! c)) current 1000000000
                   in if nd < bestd then (Some idx, nd) else (best, bestd)))
       unassigned (None, 1000000000)") auto

text \<open>
  The inner \<open>while (current.length < maxExits)\<close>: it answers the cluster and the
  unassigned set. When the tree length is over the cap the addition is undone, which
  moves the exit to the end of the unassigned set.
\<close>

function growCluster :: "settings \<Rightarrow> int list list \<Rightarrow> nat list \<Rightarrow> nat list \<Rightarrow> nat list \<times> nat list" where
  "growCluster S dist current unassigned =
     (if int (length current) < mechMaxExits S
      then (case fst (pickNearest S dist current unassigned) of
              None \<Rightarrow> (current, unassigned)
            | Some best \<Rightarrow>
                if mstLengthApprox (current @ [best]) dist > mechMstCap S
                then (current, set_add best (set_delete best unassigned))
                else growCluster S dist (current @ [best]) (set_delete best unassigned))
      else (current, unassigned))"
  by pat_completeness auto
termination
  by (relation "measure (\<lambda>(S, dist, current, unassigned). nat (mechMaxExits S - int (length current)))")
    auto

lemma growCluster_length:
  "growCluster S dist current unassigned = (c, u) \<Longrightarrow> length u \<le> length unassigned"
proof (induction S dist current unassigned rule: growCluster.induct)
  case (1 S dist current unassigned)
  show ?case
  proof (cases "int (length current) < mechMaxExits S")
    case False
    with "1.prems" show ?thesis by simp
  next
    case True
    show ?thesis
    proof (cases "fst (pickNearest S dist current unassigned)")
      case None
      with True "1.prems" show ?thesis by simp
    next
      case (Some best)
      then have b: "best \<in> set unassigned" by (rule pickNearest_member)
      have l: "length (set_delete best unassigned) < length unassigned"
        using b by (simp add: set_delete_def length_removeAll_less)
      show ?thesis
      proof (cases "mstLengthApprox (current @ [best]) dist > mechMstCap S")
        case over: True
        with True Some "1.prems" have "u = set_add best (set_delete best unassigned)" by simp
        with l show ?thesis by (auto simp: set_add_def)
      next
        case False
        with True Some "1.prems"
        have "growCluster S dist (current @ [best]) (set_delete best unassigned) = (c, u)" by simp
        from "1.IH" [OF True Some False this] l show ?thesis by simp
      qed
    qed
  qed
qed

text \<open>The outer \<open>while (unassigned.size)\<close>: the seed is the first unassigned exit.\<close>

function clusterLoop :: "settings \<Rightarrow> int list list \<Rightarrow> nat list \<Rightarrow> nat list list \<Rightarrow> nat list list" where
  "clusterLoop S dist [] clusters = clusters"
| "clusterLoop S dist (seedIndex # rest) clusters =
     (case growCluster S dist [seedIndex] rest of
        (current, unassigned') \<Rightarrow> clusterLoop S dist unassigned' (clusters @ [current]))"
  by pat_completeness auto
termination
proof (relation "measure (\<lambda>(S, dist, unassigned, clusters). length unassigned)")
  show "wf (measure (\<lambda>(S, dist, unassigned, clusters). length unassigned))" by simp
next
  fix S :: settings and dist :: "int list list" and rest :: "nat list"
    and clusters :: "nat list list" and seedIndex x current unassigned'
  assume g: "(current, unassigned') = growCluster S dist [seedIndex] rest"
  from growCluster_length [OF g [symmetric]]
  show "((S, dist, unassigned', clusters @ [current]), (S, dist, seedIndex # rest, clusters))
      \<in> measure (\<lambda>(S, dist, unassigned, clusters). length unassigned)"
    by simp
qed

subsection \<open>The route tree of a cluster\<close>

text \<open>
  Prim's algorithm as the source writes it: for every \<open>u\<close> of \<open>used\<close> (in insertion
  order) and every \<open>v\<close> of the cluster that is not used, the pair with the least
  \<open>dist[u][v]\<close> below \<open>1e9\<close>, the first one among equals.
\<close>

definition primInner :: "int list list \<Rightarrow> nat list \<Rightarrow> nat \<Rightarrow> nat \<Rightarrow> (nat \<times> nat) option \<times> int
    \<Rightarrow> (nat \<times> nat) option \<times> int" where
  "primInner dist used u v st =
     (case st of (best, bestw) \<Rightarrow>
        if v \<in> set used then (best, bestw)
        else if dist ! u ! v < bestw then (Some (u, v), dist ! u ! v)
        else (best, bestw))"

definition primPick :: "int list list \<Rightarrow> nat list \<Rightarrow> nat list \<Rightarrow> (nat \<times> nat) option \<times> int" where
  "primPick dist c used =
     fold (\<lambda>u st. fold (primInner dist used u) c st) used (None, 1000000000)"

lemma primInner_fold_fresh:
  "fold (primInner dist used u) vs (b0, w0) = (Some (a, b), w) \<Longrightarrow> b0 = Some (a, b) \<or> b \<notin> set used"
  by (induction vs arbitrary: b0 w0) (auto simp: primInner_def split: if_splits)

lemma primOuter_fold_fresh:
  "fold (\<lambda>u st. fold (primInner dist used u) c st) us (b0, w0) = (Some (a, b), w)
   \<Longrightarrow> b0 = Some (a, b) \<or> b \<notin> set used"
proof (induction us arbitrary: b0 w0)
  case Nil
  then show ?case by simp
next
  case (Cons u us)
  obtain b1 w1 where s: "fold (primInner dist used u) c (b0, w0) = (b1, w1)"
    by (cases "fold (primInner dist used u) c (b0, w0)") auto
  with Cons.prems have "fold (\<lambda>u st. fold (primInner dist used u) c st) us (b1, w1) = (Some (a, b), w)"
    by simp
  from Cons.IH [OF this] have "b1 = Some (a, b) \<or> b \<notin> set used" .
  then show ?case
  proof
    assume "b1 = Some (a, b)"
    with s primInner_fold_fresh [of dist used u c b0 w0 a b w1] show ?thesis by simp
  qed simp
qed

lemma primPick_fresh: "fst (primPick dist c used) = Some (a, b) \<Longrightarrow> b \<notin> set used"
  using primOuter_fold_fresh [of dist used c used None 1000000000 a b "snd (primPick dist c used)"]
  by (cases "primPick dist c used") (auto simp: primPick_def)

function primLoop :: "int list list \<Rightarrow> nat list \<Rightarrow> nat list \<Rightarrow> (nat \<times> nat) list \<Rightarrow> (nat \<times> nat) list" where
  "primLoop dist c used edgesC =
     (if length used < length c
      then (case fst (primPick dist c used) of
              None \<Rightarrow> edgesC
            | Some (bestU, bestV) \<Rightarrow> primLoop dist c (set_add bestV used) (edgesC @ [(bestU, bestV)]))
      else edgesC)"
  by pat_completeness auto
termination
proof (relation "measure (\<lambda>(dist, c, used, edgesC). length c - length used)")
  show "wf (measure (\<lambda>(dist, c, used, edgesC). length c - length used))" by simp
next
  fix dist :: "int list list" and c used :: "nat list" and edgesC :: "(nat \<times> nat) list"
    and x2 bestU bestV
  assume l: "length used < length c" and "fst (primPick dist c used) = Some x2" "(bestU, bestV) = x2"
  then have "fst (primPick dist c used) = Some (bestU, bestV)" by simp
  then have "bestV \<notin> set used" by (rule primPick_fresh)
  then have "length (set_add bestV used) = Suc (length used)" by (simp add: set_add_def)
  with l show "((dist, c, set_add bestV used, edgesC @ [(bestU, bestV)]), (dist, c, used, edgesC))
      \<in> measure (\<lambda>(dist, c, used, edgesC). length c - length used)"
    by simp
qed

declare primLoop.simps [simp del]

text \<open>The tree edges of a cluster that has members; an empty cluster is skipped.\<close>

definition treeEdges :: "int list list \<Rightarrow> nat list \<Rightarrow> (nat \<times> nat) list" where
  "treeEdges dist c = (case c of [] \<Rightarrow> [] | first # rest \<Rightarrow> primLoop dist c [first] [])"

definition routeWeight :: "int list list \<Rightarrow> (nat \<times> nat) list \<Rightarrow> int" where
  "routeWeight dist es = sum_list (map (\<lambda>(u, v). dist ! u ! v) es)"

subsection \<open>Tile paths and buildMechanicRoutes\<close>

text \<open>
  \<open>shortestPathBetween\<close> walks the \<open>prev\<close> links back from \<open>b\<close> until it meets
  \<open>a\<close> or a node without a link. The walk is a loop without a bound of its own, so its
  model answers \<open>None\<close> where the loop would not end.
\<close>

partial_function (option) walkBack :: "(nat \<rightharpoonup> nat) \<Rightarrow> nat \<Rightarrow> nat \<Rightarrow> nat list \<Rightarrow> nat list option" where
  "walkBack prev a cur path =
     (if cur = a then Some path
      else (case prev cur of
              None \<Rightarrow> Some path
            | Some c \<Rightarrow> walkBack prev a c (path @ [c])))"

declare walkBack.simps [code]

definition shortestPathBetween :: "plan \<Rightarrow> nat \<Rightarrow> nat \<Rightarrow> nat list option" where
  "shortestPathBetween p a b =
     (case bfsDistances p a of
        (dist, prev) \<Rightarrow>
          if dist b = None then Some []
          else map_option rev (walkBack prev a b [b]))"

record route =
  rt_from :: nat
  rt_to :: nat
  pathIds :: "nat list"

record mechCluster =
  mc_exits :: "nat list"
  mc_tiles :: "nat list"
  mc_routes :: "route list"

fun clusterRoutes :: "plan \<Rightarrow> exitPoint list \<Rightarrow> (nat \<times> nat) list \<Rightarrow> nat list \<Rightarrow> route list
    \<Rightarrow> (nat list \<times> route list) option" where
  "clusterRoutes p exits [] routeTiles routes = Some (routeTiles, routes)"
| "clusterRoutes p exits ((u, v) # es) routeTiles routes =
     (case shortestPathBetween p (ex_nodeId (exits ! u)) (ex_nodeId (exits ! v)) of
        None \<Rightarrow> None
      | Some sp \<Rightarrow>
          clusterRoutes p exits es (fold set_add sp routeTiles)
            (routes @ [\<lparr>rt_from = u, rt_to = v, pathIds = sp\<rparr>]))"

fun mechClustersOf :: "plan \<Rightarrow> exitPoint list \<Rightarrow> int list list \<Rightarrow> nat list list \<Rightarrow> mechCluster list option" where
  "mechClustersOf p exits dist [] = Some []"
| "mechClustersOf p exits dist (c # cs) =
     (if c = [] then mechClustersOf p exits dist cs
      else (case clusterRoutes p exits (treeEdges dist c) [] [] of
              None \<Rightarrow> None
            | Some (routeTiles, routes) \<Rightarrow>
                map_option (\<lambda>rest. \<lparr>mc_exits = c, mc_tiles = routeTiles, mc_routes = routes\<rparr> # rest)
                  (mechClustersOf p exits dist cs)))"

text \<open>The result is the pair of \<open>Plan.mechExits\<close> and \<open>Plan.mechClusters\<close>.\<close>

definition buildMechanicRoutes :: "plan \<Rightarrow> settings \<Rightarrow> nat \<Rightarrow> nat \<Rightarrow> (int \<Rightarrow> int \<Rightarrow> tile option)
    \<Rightarrow> (error + exitPoint list \<times> mechCluster list) option" where
  "buildMechanicRoutes p S w h getTile =
     (case scanExits p getTile (grid w h) of
        Inl e \<Rightarrow> Some (Inl e)
      | Inr exits \<Rightarrow>
          (let dist = distMatrix p exits;
               clusters = clusterLoop S dist [0..<length exits] []
           in map_option (\<lambda>mcs. Inr (exits, mcs)) (mechClustersOf p exits dist clusters)))"

section \<open>computeKpis and onPreview\<close>

text \<open>
  A warning is kept as a value instead of the text made from it: the coverage ratio,
  the missing clusters, or the number, size and number of cleaners of a large court.
\<close>

datatype warning = CoverageWarning int | NoMechClusters | LargeCourt nat int int

record kpis =
  coveredTiles :: int
  handymanAvgTiles :: int
  handymanMaxTiles :: int
  mechClustersCount :: int
  mechAvgExits :: int
  mechLongestRoute :: int
  foodCourtsCount :: int

definition coverageWarnings :: "settings \<Rightarrow> int \<Rightarrow> int \<Rightarrow> warning list" where
  "coverageWarnings S validTiles covered =
     (if enableHandymen S
      then (let ratio = (if validTiles \<noteq> 0 then roundDiv (100 * covered) validTiles else 0)
            in if ratio < 100 then [CoverageWarning ratio] else [])
      else [])"

definition mechWarnings :: "settings \<Rightarrow> mechCluster list \<Rightarrow> warning list" where
  "mechWarnings S mcs = (if enableMechanics S \<and> length mcs = 0 then [NoMechClusters] else [])"

definition courtWarnings :: "settings \<Rightarrow> foodCourt list \<Rightarrow> warning list" where
  "courtWarnings S courts =
     (if enableFoodCourts S \<and> courts \<noteq> []
      then concat (map (\<lambda>fc. let need = max 1 (ceilDiv (int (length (fc_tiles fc))) (foodCourtTilesPerCleaner S))
                              in if need > 1 then [LargeCourt (fc_number fc) (int (length (fc_tiles fc))) need]
                                 else []) courts)
      else [])"

definition computeKpis :: "settings \<Rightarrow> nat \<Rightarrow> zone list \<Rightarrow> mechCluster list \<Rightarrow> foodCourt list
    \<Rightarrow> kpis \<times> warning list" where
  "computeKpis S validTiles zones mcs courts =
     (let loads = map (\<lambda>z. int (length (tiles z))) zones;
          covered = sum_list loads;
          totalExits = sum_list (map (\<lambda>mc. int (length (mc_exits mc))) mcs);
          longestRoute = fold (\<lambda>mc longestRoute.
                                 max longestRoute
                                   (fold (\<lambda>r longest. max longest (int (length (pathIds r))))
                                      (mc_routes mc) 0)) mcs 0
      in (\<lparr>coveredTiles = covered,
           handymanAvgTiles = (if loads \<noteq> [] then roundDiv covered (int (length loads)) else 0),
           handymanMaxTiles = (if loads \<noteq> [] then Max (set loads) else 0),
           mechClustersCount = int (length mcs),
           mechAvgExits = (if mcs \<noteq> [] then roundDiv totalExits (int (length mcs)) else 0),
           mechLongestRoute = longestRoute,
           foodCourtsCount = int (length courts)\<rparr>,
          coverageWarnings S (int validTiles) covered @ mechWarnings S mcs @ courtWarnings S courts))"

text \<open>
  What the planner reads from outside: the map, the answer of the stall test for a
  ride id, the number of handymen in the park and the number drawn for the first seed.
\<close>

record environment =
  mapW :: nat
  mapH :: nat
  getTileOf :: "int \<Rightarrow> int \<Rightarrow> tile option"
  isStallRide :: "int \<Rightarrow> bool"
  handymenInPark :: nat
  randomDraw :: nat

record preview =
  pv_plan :: plan
  pv_foodCourts :: "foodCourt list"
  pv_reservedFoodTiles :: "nat list"
  pv_handymanZones :: "zone list"
  pv_mechExits :: "exitPoint list"
  pv_mechClusters :: "mechCluster list"
  pv_kpis :: kpis
  pv_warnings :: "warning list"

definition foodCourtPhase :: "environment \<Rightarrow> settings \<Rightarrow> plan \<Rightarrow> error + foodCourt list \<times> nat list" where
  "foodCourtPhase E S p =
     (if enableFoodCourts S
      then (case getLikelyShopEntranceCoords (isStallRide E) (getTileOf E) (grid (mapW E) (mapH E)) of
              Inl e \<Rightarrow> Inl e
            | Inr shopEntrances \<Rightarrow> Inr (detectFoodCourts p S shopEntrances))
      else Inr ([], []))"

definition mechanicPhase :: "environment \<Rightarrow> settings \<Rightarrow> plan
    \<Rightarrow> (error + exitPoint list \<times> mechCluster list) option" where
  "mechanicPhase E S p =
     (if enableMechanics S then buildMechanicRoutes p S (mapW E) (mapH E) (getTileOf E)
      else Some (Inr ([], [])))"

text \<open>
  \<open>onPreview\<close>: reset, build, prune, the three phases that are switched on, then the
  figures and warnings. An exception ends it with the error, and \<open>None\<close> stands for a
  run that does not end.
\<close>

definition onPreview :: "environment \<Rightarrow> settings \<Rightarrow> (error + preview) option" where
  "onPreview E S =
     (case buildPathGraph S (mapW E) (mapH E) (getTileOf E) of
        Inl e \<Rightarrow> Some (Inl e)
      | Inr built \<Rightarrow>
          (let p = pruneSceneryBranches built
           in case foodCourtPhase E S p of
                Inl e \<Rightarrow> Some (Inl e)
              | Inr (courts, reserved) \<Rightarrow>
                  (let zones = (if enableHandymen S
                                then buildHandymanZones p S courts reserved (handymenInPark E) (randomDraw E)
                                else [])
                   in case mechanicPhase E S p of
                        None \<Rightarrow> None
                      | Some (Inl e) \<Rightarrow> Some (Inl e)
                      | Some (Inr (exits, mcs)) \<Rightarrow>
                          (case computeKpis S (validPathTiles p) zones mcs courts of
                             (k, ws) \<Rightarrow>
                               Some (Inr \<lparr>pv_plan = p, pv_foodCourts = courts,
                                          pv_reservedFoodTiles = reserved, pv_handymanZones = zones,
                                          pv_mechExits = exits, pv_mechClusters = mcs,
                                          pv_kpis = k, pv_warnings = ws\<rparr>)))))"

section \<open>Concrete maps\<close>

text \<open>
  Scenario A: a strip of ten tiles \<open>(0,0)\<close> to \<open>(9,0)\<close>, each with one plain footpath
  element, and a ride exit on the last tile.
\<close>

definition footpathEl :: element where
  "footpathEl = \<lparr>el_type = ''footpath'', el_isQueue = False, el_queue = False,
     el_flags = [], el_object = [], el_ride = 0\<rparr>"

definition rideExitEl :: element where
  "rideExitEl = \<lparr>el_type = ''rideExit'', el_isQueue = False, el_queue = False,
     el_flags = [], el_object = [], el_ride = 0\<rparr>"

definition queueEl :: element where
  "queueEl = \<lparr>el_type = ''footpath'', el_isQueue = True, el_queue = False,
     el_flags = [], el_object = [], el_ride = 0\<rparr>"

text \<open>The initial values of \<open>Settings\<close>, after the two preset setters have run.\<close>

definition defaultSettings :: settings where
  "defaultSettings = \<lparr>enableHandymen = True, enableMechanics = True,
     tilesPerHandyman = 180, allowDeadEndRescue = True, includeFacilitiesCuldesacs = False,
     enableFoodCourts = True, foodCourtStallThreshold = 3, foodCourtRadius = 8,
     foodCourtIncludeSeatingBins = False, foodCourtMaxTiles = 160,
     foodCourtTilesPerCleaner = 120, mechMaxExits = 4, mechMstCap = 180,
     mechDiameterCap = 120, staffInsufficient = ''Auto-hire''\<rparr>"

definition corridor :: "int \<Rightarrow> int \<Rightarrow> tile option" where
  "corridor x y = (if x = 9 then Some [footpathEl, rideExitEl] else Some [footpathEl])"

definition scenarioA :: "error + coord list" where
  "scenarioA = map_sum id (\<lambda>p. validCoords (pruneSceneryBranches p))
     (buildPathGraph defaultSettings 10 1 corridor)"

text \<open>
  A strip of two tiles: the first carries a plain footpath and a queue footpath, the
  second a plain footpath only.
\<close>

definition mixedMap :: "int \<Rightarrow> int \<Rightarrow> tile option" where
  "mixedMap x y = (if x = 0 then Some [footpathEl, queueEl] else Some [footpathEl])"

definition corridorPlan :: plan where
  "corridorPlan = projr (buildPathGraph defaultSettings 10 1 corridor)"

text \<open>
  Two path tiles with a ride exit each and a tile without path between them: the two
  nodes have no edge.
\<close>

definition islandMap :: "int \<Rightarrow> int \<Rightarrow> tile option" where
  "islandMap x y = (if x = 1 then Some [] else Some [footpathEl, rideExitEl])"

definition islandPlan :: plan where
  "islandPlan = pruneSceneryBranches (projr (buildPathGraph defaultSettings 3 1 islandMap))"

text \<open>
  A strip of 25 path tiles with stall entrances on tiles 0 and 12 and a ride exit on
  tile 24, detection radius 10 and stall threshold 1.
\<close>

definition rideEntranceEl :: "int \<Rightarrow> element" where
  "rideEntranceEl r = \<lparr>el_type = ''rideEntrance'', el_isQueue = False, el_queue = False,
     el_flags = [], el_object = [], el_ride = r\<rparr>"

definition stripMap :: "int \<Rightarrow> int \<Rightarrow> tile option" where
  "stripMap x y = (if x = 0 then Some [footpathEl, rideEntranceEl 1]
     else if x = 12 then Some [footpathEl, rideEntranceEl 2]
     else if x = 24 then Some [footpathEl, rideExitEl] else Some [footpathEl])"

definition stripPlan :: plan where
  "stripPlan = pruneSceneryBranches (projr (buildPathGraph defaultSettings 25 1 stripMap))"

definition stripSettings :: settings where
  "stripSettings = defaultSettings\<lparr>foodCourtRadius := 10, foodCourtStallThreshold := 1\<rparr>"

definition stripTiles :: "nat list" where
  "stripTiles = [12, 13, 11, 14, 10, 15, 9, 16, 8, 17, 7, 18, 6, 19, 5, 20, 4, 21, 3, 22, 2]"

definition stripCourt :: foodCourt where
  "stripCourt = \<lparr>fc_tiles = stripTiles, fc_center = (12, 0), fc_number = 1, staffNeeded = 1\<rparr>"

text \<open>
  Two path tiles; the first carries the exits of two rides, the second the exit of a
  third.
\<close>

definition twinMap :: "int \<Rightarrow> int \<Rightarrow> tile option" where
  "twinMap x y = (if x = 0 then Some [footpathEl, rideExitEl\<lparr>el_ride := 1\<rparr>, rideExitEl\<lparr>el_ride := 2\<rparr>]
     else Some [footpathEl, rideExitEl\<lparr>el_ride := 3\<rparr>])"

definition twinPlan :: plan where
  "twinPlan = pruneSceneryBranches (projr (buildPathGraph defaultSettings 2 1 twinMap))"

definition twinExits :: "exitPoint list" where
  "twinExits = projr (scanExits twinPlan twinMap (grid 2 1))"

text \<open>Five path tiles in a row, with a ride exit on the first, the third and the fifth.\<close>

definition lineMap :: "int \<Rightarrow> int \<Rightarrow> tile option" where
  "lineMap x y = (if x = 0 \<or> x = 2 \<or> x = 4 then Some [footpathEl, rideExitEl] else Some [footpathEl])"

definition lineBuilt :: plan where
  "lineBuilt = projr (buildPathGraph defaultSettings 5 1 lineMap)"

definition lineExits :: "exitPoint list" where
  "lineExits = projr (scanExits (pruneSceneryBranches lineBuilt) lineMap (grid 5 1))"

definition lineDist :: "int list list" where
  "lineDist = distMatrix (pruneSceneryBranches lineBuilt) lineExits"

text \<open>
  A single path tile without any ride, and the settings with both kinds of patrol
  switched off.
\<close>

definition barrenEnv :: environment where
  "barrenEnv = \<lparr>mapW = 1, mapH = 1, getTileOf = (\<lambda>x y. Some [footpathEl]),
     isStallRide = (\<lambda>r. False), handymenInPark = 0, randomDraw = 0\<rparr>"

definition quietSettings :: settings where
  "quietSettings = defaultSettings\<lparr>enableHandymen := False, enableMechanics := False\<rparr>"

definition barrenBuilt :: plan where
  "barrenBuilt = projr (buildPathGraph defaultSettings (mapW barrenEnv) (mapH barrenEnv) (getTileOf barrenEnv))"

section \<open>Scenario A: pruning the corridor\<close>

lemma corridor_graph:
  "map_sum id (\<lambda>p. (map (\<lambda>n. (node_x n, node_y n, attractor n)) (nodes p), edges p))
     (buildPathGraph defaultSettings 10 1 corridor)
   = Inr ([(0, 0, False), (1, 0, False), (2, 0, False), (3, 0, False), (4, 0, False),
           (5, 0, False), (6, 0, False), (7, 0, False), (8, 0, False), (9, 0, True)],
          [[1], [2, 0], [3, 1], [4, 2], [5, 3], [6, 4], [7, 5], [8, 6], [9, 7], [8]])"
  by code_simp

text \<open>
  C1 (as stated, refuted). On the corridor of Scenario A the pruned valid set is not
  \<open>{(7,0), (8,0), (9,0)}\<close>: tile \<open>(7,0)\<close> is removed, because \<open>adjacentToAttractor\<close>
  looks one edge away only and \<open>(7,0)\<close> is two edges from the exit.
\<close>

theorem scenarioA_not_three_tiles:
  "scenarioA \<noteq> Inr [(7, 0), (8, 0), (9, 0)]
   \<and> map_sum id set scenarioA \<noteq> Inr {(7, 0), (8, 0), (9, 0)}
   \<and> map_sum id length scenarioA \<noteq> Inr 3"
  by code_simp

text \<open>
  C1 (amended). On the corridor of Scenario A, pruning removes \<open>(0,0)\<close> through
  \<open>(7,0)\<close>; the final valid set is exactly \<open>{(8,0), (9,0)}\<close>, of size 2.
\<close>

theorem scenarioA_two_tiles:
  "scenarioA = Inr [(8, 0), (9, 0)]
   \<and> map_sum id set scenarioA = Inr {(8, 0), (9, 0)}
   \<and> map_sum id length scenarioA = Inr 2"
  by code_simp

section \<open>The built graph\<close>

text \<open>
  What the scan produces: the nodes are the grid tiles that pass the test
  \<open>hasPath && !isQueue\<close>, in scan order; \<open>idByXY\<close> is the inverse of the node
  coordinates; the adjacency lists are symmetric, without repetitions and within range.
\<close>

definition coordsOf :: "node list \<Rightarrow> coord list" where
  "coordsOf ns = map (\<lambda>n. (node_x n, node_y n)) ns"

definition tileOk :: "(int \<Rightarrow> int \<Rightarrow> tile option) \<Rightarrow> coord \<Rightarrow> bool" where
  "tileOk getTile k =
     (case getTile (fst k) (snd k) of
        None \<Rightarrow> False
      | Some els \<Rightarrow> (\<exists>el \<in> set els. el_type el = ''footpath'')
          \<and> \<not> (\<exists>el \<in> set els. el_type el = ''footpath'' \<and> isQueueFlagged el))"

lemma scanElements_eq:
  "scanElements k els (hp, iq, at) =
     (hp \<or> (\<exists>el \<in> set els. el_type el = ''footpath''),
      iq \<or> (\<exists>el \<in> set els. el_type el = ''footpath'' \<and> isQueueFlagged el),
      if \<exists>el \<in> set els. el_type el = ''rideEntrance'' \<or> el_type el = ''rideExit''
      then insert k at else at)"
  by (induction els arbitrary: hp iq at) auto

lemma scanTile_fst:
  "fst (scanTile g k st) =
     (if tileOk g k
      then fst st @ [\<lparr>node_id = length (fst st), node_x = fst k, node_y = snd k, node_deg = 0,
             attractor = (k \<in> snd (snd (scanElements k (the (g (fst k) (snd k))) (False, False, snd (snd st))))),
             component = - 1, node_valid = True\<rparr>]
      else fst st)"
  by (cases k; cases st) (auto simp: tileOk_def scanElements_eq split: option.splits)

lemma scanTile_nodes:
  "coordsOf (fst (scanTile g k st)) = coordsOf (fst st) @ (if tileOk g k then [k] else [])"
  by (simp add: scanTile_fst coordsOf_def)

lemma scanTile_idm:
  "fst (snd (scanTile g k st)) =
     (if tileOk g k then (fst (snd st))(k \<mapsto> length (fst st)) else fst (snd st))"
  by (cases k; cases st) (auto simp: tileOk_def scanElements_eq split: option.splits)

lemma scan_coords:
  "coordsOf (fst (fold (scanTile g) ks st)) = coordsOf (fst st) @ filter (tileOk g) ks"
  by (induction ks arbitrary: st) (auto simp: scanTile_nodes)

definition scanInv :: "node list \<Rightarrow> (coord \<rightharpoonup> nat) \<Rightarrow> bool" where
  "scanInv ns idm =
     ((\<forall>i < length ns. idm (coordsOf ns ! i) = Some i)
      \<and> (\<forall>k i. idm k = Some i \<longrightarrow> i < length ns \<and> coordsOf ns ! i = k))"

lemma scanInv_step:
  assumes "scanInv (fst st) (fst (snd st))" and "k \<notin> set (coordsOf (fst st))"
  shows "scanInv (fst (scanTile g k st)) (fst (snd (scanTile g k st)))"
proof (cases "tileOk g k")
  case False
  with assms show ?thesis by (simp add: scanTile_fst scanTile_idm)
next
  case True
  obtain ns idm at where st: "st = (ns, idm, at)" by (cases st) auto
  from assms st have inv: "scanInv ns idm" and fresh: "k \<notin> set (coordsOf ns)" by simp_all
  have len: "length (coordsOf ns) = length ns" by (simp add: coordsOf_def)
  show ?thesis
    unfolding scanInv_def
  proof (intro conjI allI impI)
    fix i assume "i < length (fst (scanTile g k st))"
    then have i: "i < Suc (length ns)" using True st by (simp add: scanTile_fst)
    show "fst (snd (scanTile g k st)) (coordsOf (fst (scanTile g k st)) ! i) = Some i"
    proof (cases "i < length ns")
      case True
      then have "coordsOf ns ! i \<in> set (coordsOf ns)" using len by simp
      then have "coordsOf ns ! i \<noteq> k" using fresh by auto
      moreover have "idm (coordsOf ns ! i) = Some i" using inv True by (simp add: scanInv_def)
      ultimately show ?thesis using \<open>tileOk g k\<close> st True len
        by (simp add: scanTile_fst scanTile_idm coordsOf_def nth_append)
    next
      case False
      then have "i = length ns" using i by simp
      then show ?thesis using \<open>tileOk g k\<close> st
        by (simp add: scanTile_fst scanTile_idm coordsOf_def nth_append)
    qed
  next
    fix k' i assume a: "fst (snd (scanTile g k st)) k' = Some i"
    have old: "k' \<noteq> k \<Longrightarrow> i < length ns \<and> coordsOf ns ! i = k'"
      using a True st inv unfolding scanInv_def by (cases k') (auto simp: scanTile_idm)
    have new: "k' = k \<Longrightarrow> i = length ns"
      using a True st by (simp add: scanTile_idm)
    show "i < length (fst (scanTile g k st))"
      using old new True st by (cases "k' = k") (simp_all add: scanTile_fst)
    show "coordsOf (fst (scanTile g k st)) ! i = k'"
      using old new True st
      by (cases "k' = k") (simp_all add: scanTile_fst coordsOf_def nth_append)
  qed
qed

lemma scanInv_fold:
  assumes "scanInv (fst st) (fst (snd st))" and "distinct ks"
    and "set (coordsOf (fst st)) \<inter> set ks = {}"
  shows "scanInv (fst (fold (scanTile g) ks st)) (fst (snd (fold (scanTile g) ks st)))"
  using assms
proof (induction ks arbitrary: st)
  case Nil
  then show ?case by simp
next
  case (Cons k ks)
  have 1: "scanInv (fst (scanTile g k st)) (fst (snd (scanTile g k st)))"
    using Cons.prems by (intro scanInv_step) auto
  have 2: "set (coordsOf (fst (scanTile g k st))) \<inter> set ks = {}"
    using Cons.prems by (auto simp: scanTile_nodes)
  show ?case using Cons.IH [OF 1 _ 2] Cons.prems by simp
qed

lemma set_grid: "set (grid w h) = {(int x, int y) |x y. x < w \<and> y < h}"
  by (auto simp: grid_def)

lemma grid_Suc: "grid (Suc w) h = grid w h @ map (\<lambda>y. (int w, int y)) [0..<h]"
  by (simp add: grid_def)

lemma distinct_grid: "distinct (grid w h)"
proof (induction w)
  case 0
  show ?case by (simp add: grid_def)
next
  case (Suc w)
  have "distinct (map (\<lambda>y. (int w, int y)) [0..<h])"
    by (simp add: distinct_map inj_on_def)
  moreover have "set (grid w h) \<inter> set (map (\<lambda>y. (int w, int y)) [0..<h]) = {}"
    by (auto simp: set_grid)
  ultimately show ?case using Suc by (simp add: grid_Suc)
qed

lemma scan_ids:
  "map node_id (fst st) = [0..<length (fst st)] \<Longrightarrow>
   map node_id (fst (fold (scanTile g) ks st)) = [0..<length (fst (fold (scanTile g) ks st))]"
  by (induction ks arbitrary: st) (auto simp: scanTile_fst)

lemma markElements_keeps:
  "coordsOf (markElements S idm k els ns) = coordsOf ns
   \<and> map node_id (markElements S idm k els ns) = map node_id ns"
proof (induction els arbitrary: ns)
  case Nil
  show ?case by simp
next
  case (Cons el els)
  have "coordsOf (ns[i := (ns ! i)\<lparr>attractor := True\<rparr>]) = coordsOf ns
      \<and> map node_id (ns[i := (ns ! i)\<lparr>attractor := True\<rparr>]) = map node_id ns" for i
  proof (cases "i < length ns")
    case True
    then show ?thesis by (simp add: coordsOf_def map_update list_update_same_conv)
  next
    case False
    then have "ns[i := (ns ! i)\<lparr>attractor := True\<rparr>] = ns"
      by (simp add: list_update_beyond not_less)
    then show ?thesis by simp
  qed
  then show ?case using Cons by (simp split: option.splits)
qed

lemma markTiles_keeps:
  "markTiles S g idm ks ns = Inr ns' \<Longrightarrow>
   coordsOf ns' = coordsOf ns \<and> map node_id ns' = map node_id ns"
proof (induction ks arbitrary: ns)
  case Nil
  then show ?case by simp
next
  case (Cons k ks)
  obtain x y where k: "k = (x, y)" by (cases k) auto
  from Cons.prems k obtain els where els: "g x y = Some els"
    and r: "markTiles S g idm ks (markElements S idm (x, y) els ns) = Inr ns'"
    by (auto split: option.splits)
  from Cons.IH [OF r] markElements_keeps [of S idm "(x, y)" els ns] show ?case by simp
qed

lemma markTiles_total:
  "(\<forall>k \<in> set ks. g (fst k) (snd k) \<noteq> None) \<Longrightarrow> \<exists>ns'. markTiles S g idm ks ns = Inr ns'"
  by (induction ks arbitrary: ns) (auto split: option.splits)

lemma markTiles_error:
  "(\<exists>k \<in> set ks. g (fst k) (snd k) = None) \<Longrightarrow> markTiles S g idm ks ns = Inl TypeError"
proof (induction ks arbitrary: ns)
  case Nil
  then show ?case by simp
next
  case (Cons k ks)
  obtain x y where k: "k = (x, y)" by (cases k) auto
  show ?case
  proof (cases "g x y")
    case None
    then show ?thesis using k by simp
  next
    case (Some els)
    with Cons.prems k have "\<exists>k \<in> set ks. g (fst k) (snd k) = None" by auto
    from Cons.IH [OF this] Some k show ?thesis by simp
  qed
qed

lemma set_map_filter_iff:
  "y \<in> set (List.map_filter f xs) \<longleftrightarrow> (\<exists>x \<in> set xs. f x = Some y)"
  by (induction xs) (auto simp: map_filter_simps split: option.splits)

lemma distinct_map_filter_inj:
  "distinct xs \<Longrightarrow> (\<And>x x' y. x \<in> set xs \<Longrightarrow> x' \<in> set xs \<Longrightarrow> f x = Some y \<Longrightarrow> f x' = Some y \<Longrightarrow> x = x')
   \<Longrightarrow> distinct (List.map_filter f xs)"
proof (induction xs)
  case Nil
  show ?case by (simp add: map_filter_simps)
next
  case (Cons a xs)
  have IH: "distinct (List.map_filter f xs)"
    using Cons.prems by (intro Cons.IH) auto
  show ?case
  proof (cases "f a")
    case None
    then show ?thesis using IH by (simp add: map_filter_simps)
  next
    case (Some y)
    have "y \<notin> set (List.map_filter f xs)"
    proof
      assume "y \<in> set (List.map_filter f xs)"
      then obtain x where x: "x \<in> set xs" "f x = Some y" by (auto simp: set_map_filter_iff)
      with Cons.prems(2) [of a x y] Some have "a = x" by simp
      with x Cons.prems(1) show False by simp
    qed
    then show ?thesis using IH Some by (simp add: map_filter_simps)
  qed
qed

lemma nodeEdges_set:
  "b \<in> set (nodeEdges idm n) \<longleftrightarrow> (\<exists>d \<in> set nbrs. idm (node_x n + fst d, node_y n + snd d) = Some b)"
  by (simp add: nodeEdges_def set_map_filter_iff)

lemma nodeEdges_distinct:
  assumes "\<And>k k' i. idm k = Some i \<Longrightarrow> idm k' = Some i \<Longrightarrow> k = k'"
  shows "distinct (nodeEdges idm n)"
  unfolding nodeEdges_def
proof (rule distinct_map_filter_inj)
  show "distinct nbrs" by (simp add: nbrs_def)
next
  fix d d' :: coord and y
  assume "idm (node_x n + fst d, node_y n + snd d) = Some y"
    and "idm (node_x n + fst d', node_y n + snd d') = Some y"
  from assms [OF this] show "d = d'" by (simp add: prod_eq_iff)
qed

definition graphOk :: "nat list list \<Rightarrow> bool" where
  "graphOk es =
     (\<forall>a < length es. distinct (es ! a) \<and> (\<forall>b \<in> set (es ! a). b < length es \<and> a \<in> set (es ! b)))"

lemma scan_result:
  assumes "fold (scanTile g) (grid w h) ([], Map.empty, {}) = (ns0, idm, at)"
  shows "coordsOf ns0 = filter (tileOk g) (grid w h)"
    and "map node_id ns0 = [0..<length ns0]"
    and "scanInv ns0 idm"
proof -
  let ?st = "([], Map.empty, {}) :: scan_state"
  show "coordsOf ns0 = filter (tileOk g) (grid w h)"
    using scan_coords [of g "grid w h" ?st] assms by (simp add: coordsOf_def)
  show "map node_id ns0 = [0..<length ns0]"
    using scan_ids [of ?st g "grid w h"] assms by simp
  have "scanInv (fst ?st) (fst (snd ?st))" by (simp add: scanInv_def)
  from scanInv_fold [OF this distinct_grid, of w h g] assms
  show "scanInv ns0 idm" by (simp add: coordsOf_def)
qed

lemma buildPathGraph_cases:
  assumes "buildPathGraph S w h g = Inr p"
  obtains ns0 idm at where
    "fold (scanTile g) (grid w h) ([], Map.empty, {}) = (ns0, idm, at)"
    "idByXY p = idm" "edges p = map (nodeEdges idm) ns0"
    "coordsOf (nodes p) = coordsOf ns0" "map node_id (nodes p) = map node_id ns0"
    "validNodeIds p = map node_id (nodes p)"
    "attractorNodeIds p = node_id ` set (filter attractor (nodes p))"
proof -
  obtain ns0 idm at where f: "fold (scanTile g) (grid w h) ([], Map.empty, {}) = (ns0, idm, at)"
    by (cases "fold (scanTile g) (grid w h) ([], Map.empty, {})") auto
  let ?ns1 = "map (\<lambda>n. n\<lparr>node_deg := length (nodeEdges idm n)\<rparr>) ns0"
  have k1: "coordsOf ?ns1 = coordsOf ns0 \<and> map node_id ?ns1 = map node_id ns0"
    by (simp add: coordsOf_def)
  obtain ns where ns: "(if includeFacilitiesCuldesacs S then markTiles S g idm (grid w h) ?ns1
                    else Inr ?ns1) = Inr ns"
    and p: "p = \<lparr>nodes = ns, idByXY = idm, edges = map (nodeEdges idm) ns0,
                       validNodeIds = map node_id ns,
                       attractorNodeIds = node_id ` set (filter attractor ns),
                       validPathTiles = 0\<rparr>"
    using assms f by (auto simp: buildPathGraph_def Let_def split: sum.splits)
  have "coordsOf ns = coordsOf ?ns1 \<and> map node_id ns = map node_id ?ns1"
    using ns markTiles_keeps [of S g idm "grid w h" ?ns1 ns] by (auto split: if_splits)
  with k1 have "coordsOf ns = coordsOf ns0" "map node_id ns = map node_id ns0" by simp_all
  with f p that show thesis by simp
qed

lemma built_coords:
  "buildPathGraph S w h g = Inr p \<Longrightarrow> coordsOf (nodes p) = filter (tileOk g) (grid w h)"
  by (erule buildPathGraph_cases) (simp add: scan_result)

lemma built_lengths:
  assumes "buildPathGraph S w h g = Inr p"
  shows "length (edges p) = length (nodes p)" and "validNodeIds p = [0..<length (nodes p)]"
proof -
  from assms obtain ns0 idm at where
    f: "fold (scanTile g) (grid w h) ([], Map.empty, {}) = (ns0, idm, at)"
    and e: "edges p = map (nodeEdges idm) ns0" and i: "map node_id (nodes p) = map node_id ns0"
    and v: "validNodeIds p = map node_id (nodes p)"
    by (rule buildPathGraph_cases)
  from i have l: "length (nodes p) = length ns0" by (rule map_eq_imp_length_eq)
  with e show "length (edges p) = length (nodes p)" by simp
  from v i l scan_result(2) [OF f] show "validNodeIds p = [0..<length (nodes p)]" by simp
qed

lemma built_graphOk:
  assumes "buildPathGraph S w h g = Inr p"
  shows "graphOk (edges p)"
proof -
  from assms obtain ns0 idm at where
    f: "fold (scanTile g) (grid w h) ([], Map.empty, {}) = (ns0, idm, at)"
    and e: "edges p = map (nodeEdges idm) ns0"
    by (rule buildPathGraph_cases)
  have inv: "scanInv ns0 idm" by (rule scan_result(3) [OF f])
  have len: "length (coordsOf ns0) = length ns0" by (simp add: coordsOf_def)
  have inj: "k = k'" if "idm k = Some i" "idm k' = Some i" for k k' i
    using inv that unfolding scanInv_def by metis
  show ?thesis
    unfolding graphOk_def
  proof (intro allI impI conjI ballI)
    fix a assume "a < length (edges p)"
    then have a: "a < length ns0" using e by simp
    show "distinct (edges p ! a)" using a e inj by (simp add: nodeEdges_distinct)
    fix b assume "b \<in> set (edges p ! a)"
    then obtain d where d: "d \<in> set nbrs"
      and b: "idm (node_x (ns0 ! a) + fst d, node_y (ns0 ! a) + snd d) = Some b"
      using a e by (auto simp: nodeEdges_set)
    from inv b have bl: "b < length ns0"
      and bc: "coordsOf ns0 ! b = (node_x (ns0 ! a) + fst d, node_y (ns0 ! a) + snd d)"
      unfolding scanInv_def by blast+
    show "b < length (edges p)" using bl e by simp
    have "idm (coordsOf ns0 ! a) = Some a" using inv a unfolding scanInv_def by blast
    then have ia: "idm (node_x (ns0 ! a), node_y (ns0 ! a)) = Some a"
      using a by (simp add: coordsOf_def)
    from bc bl have bx: "node_x (ns0 ! b) = node_x (ns0 ! a) + fst d"
      and "node_y (ns0 ! b) = node_y (ns0 ! a) + snd d"
      by (simp_all add: coordsOf_def)
    then have "idm (node_x (ns0 ! b) + fst (- fst d, - snd d), node_y (ns0 ! b) + snd (- fst d, - snd d)) = Some a"
      using ia by simp
    moreover have "(- fst d, - snd d) \<in> set nbrs" using d by (auto simp: nbrs_def)
    ultimately have "a \<in> set (nodeEdges idm (ns0 ! b))"
      unfolding nodeEdges_set by blast
    then show "a \<in> set (edges p ! b)" using bl e by simp
  qed
qed

lemma buildPathGraph_returns:
  assumes "includeFacilitiesCuldesacs S \<longrightarrow> (\<forall>k \<in> set (grid w h). g (fst k) (snd k) \<noteq> None)"
  shows "\<exists>p. buildPathGraph S w h g = Inr p"
proof -
  obtain ns0 idm at where f: "fold (scanTile g) (grid w h) ([], Map.empty, {}) = (ns0, idm, at)"
    by (cases "fold (scanTile g) (grid w h) ([], Map.empty, {})") auto
  show ?thesis
  proof (cases "includeFacilitiesCuldesacs S")
    case False
    then show ?thesis using f by (simp add: buildPathGraph_def Let_def)
  next
    case True
    with assms have "\<forall>k \<in> set (grid w h). g (fst k) (snd k) \<noteq> None" by simp
    from markTiles_total [OF this] obtain ns where
      "markTiles S g idm (grid w h) (map (\<lambda>n. n\<lparr>node_deg := length (nodeEdges idm n)\<rparr>) ns0) = Inr ns"
      by blast
    then show ?thesis using f True by (simp add: buildPathGraph_def Let_def)
  qed
qed


text \<open>
  C7. For every tile \<open>(x, y)\<close> of the scanned grid the builder creates a node exactly
  when the tile carries a footpath element that is not queue-flagged and carries no
  queue-flagged footpath element. The builder returns whenever the optional scenery pass
  is off or every tile of the grid exists.
\<close>

theorem buildPathGraph_node_iff:
  assumes "x < w" and "y < h"
    and "includeFacilitiesCuldesacs S \<longrightarrow> (\<forall>k \<in> set (grid w h). getTile (fst k) (snd k) \<noteq> None)"
  shows "\<exists>p. buildPathGraph S w h getTile = Inr p \<and>
     ((\<exists>n \<in> set (nodes p). node_x n = int x \<and> node_y n = int y) \<longleftrightarrow>
      (\<exists>els. getTile (int x) (int y) = Some els
         \<and> (\<exists>el \<in> set els. el_type el = ''footpath'' \<and> \<not> isQueueFlagged el)
         \<and> \<not> (\<exists>el \<in> set els. el_type el = ''footpath'' \<and> isQueueFlagged el)))"
proof -
  from buildPathGraph_returns [OF assms(3)] obtain p where p: "buildPathGraph S w h getTile = Inr p"
    by blast
  have "(\<exists>n \<in> set (nodes p). node_x n = int x \<and> node_y n = int y)
      \<longleftrightarrow> (int x, int y) \<in> set (coordsOf (nodes p))"
    by (force simp: coordsOf_def image_iff)
  also have "\<dots> \<longleftrightarrow> tileOk getTile (int x, int y)"
    using assms(1,2) by (auto simp: built_coords [OF p] set_grid)
  also have "\<dots> \<longleftrightarrow> (\<exists>els. getTile (int x) (int y) = Some els
         \<and> (\<exists>el \<in> set els. el_type el = ''footpath'' \<and> \<not> isQueueFlagged el)
         \<and> \<not> (\<exists>el \<in> set els. el_type el = ''footpath'' \<and> isQueueFlagged el))"
    by (auto simp: tileOk_def split: option.splits)
  finally show ?thesis using p by blast
qed

theorem buildPathGraph_node_iff_witness:
  "(\<exists>p. buildPathGraph defaultSettings 2 1 mixedMap = Inr p
      \<and> \<not> (\<exists>n \<in> set (nodes p). node_x n = 0 \<and> node_y n = 0))
   \<and> (\<exists>p. buildPathGraph defaultSettings 2 1 mixedMap = Inr p
      \<and> (\<exists>n \<in> set (nodes p). node_x n = 1 \<and> node_y n = 0))"
  using buildPathGraph_node_iff [of 0 2 0 1 defaultSettings mixedMap]
    buildPathGraph_node_iff [of 1 2 0 1 defaultSettings mixedMap]
  by (simp add: mixedMap_def defaultSettings_def footpathEl_def queueEl_def isQueueFlagged_def)

section \<open>The pruning invariant\<close>


lemma inner_deg_fold:
  "v < length deg \<Longrightarrow>
   fold (\<lambda>nb deg. if P nb then deg[v := deg ! v + 1] else deg) xs deg
     = deg[v := deg ! v + int (length (filter P xs))]"
  by (induction xs arbitrary: deg) (auto simp: list_update_same_conv add.assoc)

lemma outer_deg_fold:
  assumes "distinct vs" and "\<forall>v \<in> set vs. v < length deg" and "u < length deg"
  shows "fold (\<lambda>v deg. fold (\<lambda>nb deg. if nb \<in> V then deg[v := deg ! v + 1] else deg) (es ! v) deg) vs deg ! u
     = (if u \<in> set vs then deg ! u + int (length (filter (\<lambda>nb. nb \<in> V) (es ! u))) else deg ! u)"
  using assms
proof (induction vs arbitrary: deg)
  case Nil
  then show ?case by simp
next
  case (Cons v vs)
  let ?deg = "deg[v := deg ! v + int (length (filter (\<lambda>nb. nb \<in> V) (es ! v)))]"
  have step: "fold (\<lambda>nb deg. if nb \<in> V then deg[v := deg ! v + 1] else deg) (es ! v) deg = ?deg"
    using Cons.prems by (simp add: inner_deg_fold)
  have "fold (\<lambda>v deg. fold (\<lambda>nb deg. if nb \<in> V then deg[v := deg ! v + 1] else deg) (es ! v) deg) vs ?deg ! u
     = (if u \<in> set vs then ?deg ! u + int (length (filter (\<lambda>nb. nb \<in> V) (es ! u))) else ?deg ! u)"
    using Cons.prems by (intro Cons.IH) auto
  then show ?case using Cons.prems step by (auto simp: nth_list_update)
qed

lemma length_fold_deg:
  "length (fold (\<lambda>v deg. fold (\<lambda>nb deg. if nb \<in> V then deg[v := deg ! v + 1] else deg) (es ! v) deg) vs deg)
     = length deg"
proof (induction vs arbitrary: deg)
  case Nil
  show ?case by simp
next
  case (Cons v vs)
  have "length (fold (\<lambda>nb deg. if nb \<in> V then deg[v := deg ! v + 1] else deg) xs deg) = length deg" for xs
    by (induction xs arbitrary: deg) auto
  then show ?case using Cons by simp
qed

lemma initDeg_nth:
  assumes "distinct valid" and "\<forall>v \<in> set valid. v < n" and "u \<in> set valid"
  shows "initDeg es valid n ! u = int (degreeIn es valid u)"
  using outer_deg_fold [of valid "replicate n 0" u "set valid" es] assms
  by (simp add: initDeg_def degreeIn_def)

lemma length_initDeg: "length (initDeg es valid n) = n"
  by (simp add: initDeg_def length_fold_deg)

lemma set_initQueue_gen:
  "set (fold (\<lambda>v q. if P v then v # q else q) vs q0) = set q0 \<union> {v \<in> set vs. P v}"
  by (induction vs arbitrary: q0) auto

lemma set_initQueue:
  "set (initQueue es A valid deg) = {v \<in> set valid. deg ! v \<le> 1 \<and> \<not> adjacentToAttractor es A v}"
  by (simp add: initQueue_def set_initQueue_gen)


lemma relax_fold:
  assumes "distinct xs" and "\<forall>x \<in> set xs. x < length deg"
  shows "fold (relax es A valid) xs (deg, q) = (deg', q') \<Longrightarrow>
     length deg' = length deg
     \<and> (\<forall>u < length deg. deg' ! u = (if u \<in> set xs \<and> u \<in> set valid then deg ! u - 1 else deg ! u))
     \<and> set q' = set q \<union> {u \<in> set xs. u \<in> set valid \<and> deg ! u - 1 \<le> 1 \<and> \<not> adjacentToAttractor es A u}"
  using assms
proof (induction xs arbitrary: deg q)
  case Nil
  then show ?case by simp
next
  case (Cons x xs)
  obtain d1 q1 where s1: "relax es A valid x (deg, q) = (d1, q1)" by (cases "relax es A valid x (deg, q)") auto
  have l1: "length d1 = length deg" using s1 by (auto simp: relax_def Let_def split: if_splits)
  have xl: "x < length deg" using Cons.prems by simp
  have d1: "\<forall>u < length deg. d1 ! u = (if u = x \<and> u \<in> set valid then deg ! u - 1 else deg ! u)"
    using s1 xl by (auto simp: relax_def Let_def nth_list_update split: if_splits)
  have q1: "set q1 = set q \<union> (if x \<in> set valid \<and> deg ! x - 1 \<le> 1 \<and> \<not> adjacentToAttractor es A x then {x} else {})"
    using s1 xl by (auto simp: relax_def Let_def split: if_splits)
  from Cons.prems s1 have r: "fold (relax es A valid) xs (d1, q1) = (deg', q')" by simp
  have IH: "length deg' = length d1
     \<and> (\<forall>u < length d1. deg' ! u = (if u \<in> set xs \<and> u \<in> set valid then d1 ! u - 1 else d1 ! u))
     \<and> set q' = set q1 \<union> {u \<in> set xs. u \<in> set valid \<and> d1 ! u - 1 \<le> 1 \<and> \<not> adjacentToAttractor es A u}"
    using Cons.prems l1 by (intro Cons.IH [OF r]) auto
  have nx: "x \<notin> set xs" using Cons.prems by simp
  have same: "\<forall>u \<in> set xs. d1 ! u = deg ! u" using d1 nx Cons.prems by auto
  show ?case
  proof (intro conjI allI impI)
    show "length deg' = length deg" using IH l1 by simp
  next
    fix u assume u: "u < length deg"
    show "deg' ! u = (if u \<in> set (x # xs) \<and> u \<in> set valid then deg ! u - 1 else deg ! u)"
      using IH d1 u l1 nx by auto
  next
    show "set q' = set q \<union> {u \<in> set (x # xs). u \<in> set valid \<and> deg ! u - 1 \<le> 1 \<and> \<not> adjacentToAttractor es A u}"
      using IH q1 same by auto
  qed
qed

definition pruneInv :: "nat list list \<Rightarrow> nat set \<Rightarrow> nat list \<Rightarrow> int list \<Rightarrow> nat list \<Rightarrow> bool" where
  "pruneInv es A valid deg q =
     (length deg = length es
      \<and> (\<forall>v \<in> set valid. v < length es)
      \<and> (\<forall>v \<in> set valid. deg ! v = int (degreeIn es valid v))
      \<and> (\<forall>v \<in> set valid. deg ! v \<le> 1 \<and> \<not> adjacentToAttractor es A v \<longrightarrow> v \<in> set q))"

lemma filter_minus_one:
  assumes "distinct xs" and "v \<in> S"
  shows "int (length (filter (\<lambda>nb. nb \<in> S - {v}) xs))
     = int (length (filter (\<lambda>nb. nb \<in> S) xs)) - (if v \<in> set xs then 1 else 0)"
  using assms by (induction xs) auto

lemma graphOk_distinct: "graphOk es \<Longrightarrow> a < length es \<Longrightarrow> distinct (es ! a)"
  unfolding graphOk_def by blast

lemma graphOk_range: "graphOk es \<Longrightarrow> a < length es \<Longrightarrow> b \<in> set (es ! a) \<Longrightarrow> b < length es"
  unfolding graphOk_def by blast

lemma graphOk_sym: "graphOk es \<Longrightarrow> a < length es \<Longrightarrow> b \<in> set (es ! a) \<Longrightarrow> a \<in> set (es ! b)"
  unfolding graphOk_def by blast

lemma degreeIn_delete:
  assumes "graphOk es" and "v \<in> set valid" and "v < length es" and "u < length es"
  shows "int (degreeIn es (set_delete v valid) u)
     = int (degreeIn es valid u) - (if u \<in> set (es ! v) then 1 else 0)"
proof -
  have d: "distinct (es ! u)" using assms by (simp add: graphOk_distinct)
  have sym: "v \<in> set (es ! u) \<longleftrightarrow> u \<in> set (es ! v)"
    using graphOk_sym [OF assms(1,3)] graphOk_sym [OF assms(1,4)] by blast
  have "set (set_delete v valid) = set valid - {v}" by (auto simp: set_delete_def)
  then show ?thesis
    using filter_minus_one [OF d assms(2)] sym by (simp add: degreeIn_def)
qed

lemma pruneInv_step:
  assumes ok: "graphOk es" and inv: "pruneInv es A valid deg (v # q)"
    and v: "v \<in> set valid" and nadj: "\<not> adjacentToAttractor es A v"
    and f: "fold (relax es A (set_delete v valid)) (es ! v) (deg, q) = (deg', q')"
  shows "pruneInv es A (set_delete v valid) deg' q'"
proof -
  let ?V = "set_delete v valid"
  have sV: "set ?V = set valid - {v}" by (auto simp: set_delete_def)
  have len: "length deg = length es" and rng: "\<forall>u \<in> set valid. u < length es"
    and dg: "\<forall>u \<in> set valid. deg ! u = int (degreeIn es valid u)"
    and qu: "\<forall>u \<in> set valid. deg ! u \<le> 1 \<and> \<not> adjacentToAttractor es A u \<longrightarrow> u \<in> set (v # q)"
    using inv by (simp_all add: pruneInv_def)
  have vl: "v < length es" using rng v by simp
  have dv: "distinct (es ! v)" by (rule graphOk_distinct [OF ok vl])
  have bv: "\<forall>x \<in> set (es ! v). x < length deg"
    using graphOk_range [OF ok vl] len by simp
  from relax_fold [OF dv bv f]
  have l': "length deg' = length deg"
    and d': "\<forall>u < length deg. deg' ! u = (if u \<in> set (es ! v) \<and> u \<in> set ?V then deg ! u - 1 else deg ! u)"
    and q': "set q' = set q \<union> {u \<in> set (es ! v). u \<in> set ?V \<and> deg ! u - 1 \<le> 1 \<and> \<not> adjacentToAttractor es A u}"
    by simp_all
  show ?thesis
    unfolding pruneInv_def
  proof (intro conjI ballI impI)
    show "length deg' = length es" using l' len by simp
  next
    fix u assume "u \<in> set ?V"
    then show "u < length es" using sV rng by simp
  next
    fix u assume u: "u \<in> set ?V"
    then have uv: "u \<in> set valid" and ul: "u < length es" using sV rng by simp_all
    have "deg' ! u = (if u \<in> set (es ! v) then deg ! u - 1 else deg ! u)"
      using d' ul len u by simp
    also have "\<dots> = int (degreeIn es valid u) - (if u \<in> set (es ! v) then 1 else 0)"
      using dg uv by simp
    also have "\<dots> = int (degreeIn es ?V u)"
      using degreeIn_delete [OF ok v vl ul] by simp
    finally show "deg' ! u = int (degreeIn es ?V u)" .
  next
    fix u assume u: "u \<in> set ?V" and c: "deg' ! u \<le> 1 \<and> \<not> adjacentToAttractor es A u"
    then have uv: "u \<in> set valid" and ul: "u < length es" and ne: "u \<noteq> v" using sV rng by simp_all
    have du: "deg' ! u = (if u \<in> set (es ! v) then deg ! u - 1 else deg ! u)"
      using d' ul len u by simp
    show "u \<in> set q'"
    proof (cases "u \<in> set (es ! v)")
      case True
      then show ?thesis using q' u c du by simp
    next
      case False
      then have "deg ! u \<le> 1" using du c by simp
      with qu uv c ne have "u \<in> set q" by auto
      then show ?thesis using q' by simp
    qed
  qed
qed

lemma pruneInv_skip:
  assumes "pruneInv es A valid deg (v # q)" and "v \<notin> set valid \<or> adjacentToAttractor es A v"
  shows "pruneInv es A valid deg q"
proof -
  have "u \<in> set q" if "u \<in> set valid" "deg ! u \<le> 1 \<and> \<not> adjacentToAttractor es A u" for u
  proof -
    from assms(1) that have "u \<in> set (v # q)" unfolding pruneInv_def by blast
    moreover have "u \<noteq> v" using assms(2) that by blast
    ultimately show ?thesis by simp
  qed
  then show ?thesis using assms(1) unfolding pruneInv_def by blast
qed

lemma pruneLoop_leaves:
  assumes "graphOk es" and "pruneInv es A valid deg q"
  shows "\<forall>v \<in> set (pruneLoop es A valid deg q).
           degreeIn es (pruneLoop es A valid deg q) v \<le> 1 \<longrightarrow> adjacentToAttractor es A v"
  using assms
proof (induction es A valid deg q rule: pruneLoop.induct)
  case (1 es A valid deg)
  show ?case
  proof (intro ballI impI)
    fix v assume v: "v \<in> set (pruneLoop es A valid deg [])"
      and d: "degreeIn es (pruneLoop es A valid deg []) v \<le> 1"
    from v have vv: "v \<in> set valid" by simp
    from "1.prems"(2) vv have "deg ! v = int (degreeIn es valid v)"
      unfolding pruneInv_def by blast
    with d have "deg ! v \<le> 1" by simp
    moreover from "1.prems"(2) vv
    have "deg ! v \<le> 1 \<and> \<not> adjacentToAttractor es A v \<longrightarrow> v \<in> set []"
      unfolding pruneInv_def by blast
    ultimately show "adjacentToAttractor es A v" by auto
  qed
next
  case (2 es A valid deg v q)
  show ?case
  proof (cases "v \<notin> set valid")
    case True
    then have "pruneInv es A valid deg q" by (intro pruneInv_skip [OF "2.prems"(2)] disjI1)
    from "2.IH"(1) [OF True "2.prems"(1) this] True show ?thesis by simp
  next
    case False
    show ?thesis
    proof (cases "adjacentToAttractor es A v")
      case True
      then have "pruneInv es A valid deg q" by (intro pruneInv_skip [OF "2.prems"(2)] disjI2)
      from "2.IH"(2) [OF False True "2.prems"(1) this] False True show ?thesis by simp
    next
      case nadj: False
      obtain deg' q' where f: "fold (relax es A (set_delete v valid)) (es ! v) (deg, q) = (deg', q')"
        by (cases "fold (relax es A (set_delete v valid)) (es ! v) (deg, q)") auto
      from False have v: "v \<in> set valid" by simp
      have "pruneInv es A (set_delete v valid) deg' q'"
        by (rule pruneInv_step [OF "2.prems"(1) "2.prems"(2) v nadj f])
      from "2.IH"(3) [OF False nadj f [symmetric] "2.prems"(1) this] False nadj f
      show ?thesis by simp
    qed
  qed
qed

lemma pruneInv_init:
  assumes "distinct valid" and "\<forall>v \<in> set valid. v < length es"
  shows "pruneInv es A valid (initDeg es valid (length es))
           (initQueue es A valid (initDeg es valid (length es)))"
  using assms by (simp add: pruneInv_def length_initDeg initDeg_nth set_initQueue)


text \<open>
  C4. After the pruning pass, every node that remains in the valid set and has at most
  one neighbour in the remaining valid set is an attractor or has a graph neighbour that
  is an attractor.
\<close>

theorem prune_leaves_attractor_adjacent:
  assumes "buildPathGraph S w h getTile = Inr p"
    and "v \<in> set (validNodeIds (pruneSceneryBranches p))"
    and "degreeIn (edges p) (validNodeIds (pruneSceneryBranches p)) v \<le> 1"
  shows "v \<in> attractorNodeIds p \<or> (\<exists>nb \<in> set (edges p ! v). nb \<in> attractorNodeIds p)"
proof -
  have l: "length (edges p) = length (nodes p)" and vs: "validNodeIds p = [0..<length (nodes p)]"
    using built_lengths [OF assms(1)] by simp_all
  have inv: "pruneInv (edges p) (attractorNodeIds p) (validNodeIds p)
      (initDeg (edges p) (validNodeIds p) (length (edges p)))
      (initQueue (edges p) (attractorNodeIds p) (validNodeIds p) (initDeg (edges p) (validNodeIds p) (length (edges p))))"
    by (rule pruneInv_init) (simp_all add: vs l)
  from pruneLoop_leaves [OF built_graphOk [OF assms(1)] inv] assms(2,3)
  have "adjacentToAttractor (edges p) (attractorNodeIds p) v"
    by (simp add: pruneSceneryBranches_def Let_def l)
  then show ?thesis by (simp add: adjacentToAttractor_def)
qed

lemma corridorPlan_built: "buildPathGraph defaultSettings 10 1 corridor = Inr corridorPlan"
proof -
  have "\<exists>p. buildPathGraph defaultSettings 10 1 corridor = Inr p"
    by (rule buildPathGraph_returns) (simp add: defaultSettings_def)
  then show ?thesis by (auto simp: corridorPlan_def)
qed

theorem prune_leaves_attractor_adjacent_witness:
  "buildPathGraph defaultSettings 10 1 corridor = Inr corridorPlan
   \<and> 8 \<in> set (validNodeIds (pruneSceneryBranches corridorPlan))
   \<and> degreeIn (edges corridorPlan) (validNodeIds (pruneSceneryBranches corridorPlan)) 8 \<le> 1
   \<and> (\<exists>nb \<in> set (edges corridorPlan ! 8). nb \<in> attractorNodeIds corridorPlan)"
proof -
  have b: "8 \<in> set (validNodeIds (pruneSceneryBranches corridorPlan))"
    by code_simp
  have c: "degreeIn (edges corridorPlan) (validNodeIds (pruneSceneryBranches corridorPlan)) 8 \<le> 1"
    by code_simp
  have d: "8 \<notin> attractorNodeIds corridorPlan"
    by code_simp
  from prune_leaves_attractor_adjacent [OF corridorPlan_built b c] d corridorPlan_built b c
  show ?thesis by blast
qed

section \<open>Dead-end rescue\<close>

lemma set_set_add [simp]: "set (set_add v xs) = insert v (set xs)"
  by (auto simp: set_add_def)

lemma set_fold_set_add: "set (fold set_add xs acc) = set acc \<union> set xs"
  by (induction xs arbitrary: acc) auto

lemma set_zonedTiles_gen:
  "set (fold (\<lambda>z valid. fold set_add (tiles z) valid) zones acc) = set acc \<union> (\<Union>z \<in> set zones. set (tiles z))"
  by (induction zones arbitrary: acc) (auto simp: set_fold_set_add)

lemma set_zonedTiles: "set (zonedTiles zones) = (\<Union>z \<in> set zones. set (tiles z))"
  by (simp add: zonedTiles_def set_zonedTiles_gen)

lemma rescueLeaf_zoned:
  "leaf \<in> set (zonedTiles zones) \<Longrightarrow> rescueLeaf es leaf zones = zones"
  by (auto simp: rescueLeaf_def set_zonedTiles)

lemma rescue_fold_zoned:
  "set leaves \<subseteq> set (zonedTiles zones) \<Longrightarrow> fold (rescueLeaf es) leaves zones = zones"
  by (induction leaves) (simp_all add: rescueLeaf_zoned)

lemma rescue_flag_irrelevant:
  "handymanPool p (S\<lparr>allowDeadEndRescue := b\<rparr>) courts reserved = handymanPool p S courts reserved"
  "handymanSeeds p (S\<lparr>allowDeadEndRescue := b\<rparr>) valid available r = handymanSeeds p S valid available r"
  "grownZones p (S\<lparr>allowDeadEndRescue := b\<rparr>) courts reserved available r
     = grownZones p S courts reserved available r"
  by (simp_all add: handymanPool_def handymanSeeds_def grownZones_def)

text \<open>
  C2. The dead-end rescue pass leaves every zone as it was: each leaf it looks at comes
  from the union of the zones' tiles, so the test that the leaf is in no zone fails and
  nothing is attached. Hence the plan of zones is the same with the rescue switch on
  as with it off.
\<close>

theorem rescueDeadEnds_unchanged:
  "rescueDeadEnds es zones = zones
   \<and> buildHandymanZones p (S\<lparr>allowDeadEndRescue := True\<rparr>) courts reserved available r
     = buildHandymanZones p (S\<lparr>allowDeadEndRescue := False\<rparr>) courts reserved available r"
proof -
  have r: "rescueDeadEnds es' zs = zs" for es' zs
    unfolding rescueDeadEnds_def Let_def by (rule rescue_fold_zoned) auto
  show ?thesis
    by (simp add: r buildHandymanZones_def rescue_flag_irrelevant Let_def)
qed

section \<open>Food courts: the shared visited set\<close>

lemma courtVisit_sets:
  "courtVisit p R2 c nb (visited, q) = (visited', q') \<Longrightarrow>
   set visited \<subseteq> set visited' \<and> set q' = set q \<union> (set visited' - set visited)"
  by (auto simp: courtVisit_def Let_def split: if_splits)

lemma courtVisit_fold_sets:
  "fold (courtVisit p R2 c) nbs (visited, q) = (visited', q') \<Longrightarrow>
   set visited \<subseteq> set visited' \<and> set q' \<subseteq> set q \<union> (set visited' - set visited)"
proof (induction nbs arbitrary: visited q)
  case Nil
  then show ?case by simp
next
  case (Cons nb nbs)
  obtain v1 q1 where s: "courtVisit p R2 c nb (visited, q) = (v1, q1)"
    by (cases "courtVisit p R2 c nb (visited, q)") auto
  with Cons.prems have "fold (courtVisit p R2 c) nbs (v1, q1) = (visited', q')" by simp
  from Cons.IH [OF this] courtVisit_sets [OF s] show ?case by blast
qed

lemma courtFlood_sets:
  "courtFlood p maxTiles R2 c visited q tls = (visited', tls') \<Longrightarrow>
   set visited \<subseteq> set visited'
   \<and> set tls' \<subseteq> set tls \<union> set q \<union> (set visited' - set visited)"
proof (induction p maxTiles R2 c visited q tls rule: courtFlood.induct)
  case (1 p maxTiles R2 c visited tls)
  then show ?case by simp
next
  case (2 p maxTiles R2 c visited v q tls)
  show ?case
  proof (cases "int (length tls) < maxTiles")
    case False
    with "2.prems" show ?thesis by auto
  next
    case True
    obtain v1 q1 where s: "fold (courtVisit p R2 c) (edges p ! v) (visited, q) = (v1, q1)"
      by (cases "fold (courtVisit p R2 c) (edges p ! v) (visited, q)") auto
    with True "2.prems" have r: "courtFlood p maxTiles R2 c v1 q1 (set_add v tls) = (visited', tls')"
      by simp
    from "2.IH" [OF True s [symmetric] r]
    have "set v1 \<subseteq> set visited'"
      and "set tls' \<subseteq> set (set_add v tls) \<union> set q1 \<union> (set visited' - set v1)" by simp_all
    moreover from courtVisit_fold_sets [OF s]
    have "set visited \<subseteq> set v1" and "set q1 \<subseteq> set q \<union> (set v1 - set visited)" by simp_all
    moreover have "set (set_add v tls) = insert v (set tls)" by (auto simp: set_add_def)
    ultimately show ?thesis by (simp only: list.set) blast
  qed
qed

text \<open>One seed: what it may add to the state.\<close>

lemma growCourt_cases:
  assumes "growCourt p S c (visited, courts, reserved) = (visited', courts', reserved')"
  shows "set visited \<subseteq> set visited'
     \<and> (courts' = courts \<and> reserved' = reserved
        \<or> (\<exists>fc. courts' = courts @ [fc] \<and> set (fc_tiles fc) \<subseteq> set visited' - set visited
              \<and> 20 \<le> length (fc_tiles fc)
              \<and> set reserved' = set reserved \<union> set (fc_tiles fc)))"
proof (cases "idByXY p c")
  case None
  with assms show ?thesis by (simp add: growCourt_def)
next
  case (Some nid)
  show ?thesis
  proof (cases "nid \<notin> set (validNodeIds p) \<or> nid \<in> set visited")
    case True
    with assms Some show ?thesis by (auto simp: growCourt_def split: if_splits)
  next
    case False
    obtain v1 ts where f: "courtFlood p (foodCourtMaxTiles S) (foodCourtRadius S * foodCourtRadius S) c
        (set_add nid visited) [nid] [] = (v1, ts)"
      by (cases "courtFlood p (foodCourtMaxTiles S) (foodCourtRadius S * foodCourtRadius S) c
        (set_add nid visited) [nid] []") auto
    from courtFlood_sets [OF f] False
    have sub: "set visited \<subseteq> set v1" and ts: "set ts \<subseteq> set v1 - set visited"
      by (auto simp: set_add_def)
    have set_fold: "set (fold set_add xs acc) = set acc \<union> set xs" for xs acc :: "nat list"
      by (induction xs arbitrary: acc) (auto simp: set_add_def)
    show ?thesis
    proof (cases "20 \<le> length ts")
      case True
      with assms Some False f sub ts show ?thesis
        by (auto simp: growCourt_def set_fold)
    next
      case lt: False
      with assms Some False f sub show ?thesis by (auto simp: growCourt_def)
    qed
  qed
qed

definition courtsInv :: "nat list \<Rightarrow> foodCourt list \<Rightarrow> nat list \<Rightarrow> bool" where
  "courtsInv visited courts reserved =
     ((\<forall>fc \<in> set courts. set (fc_tiles fc) \<subseteq> set visited)
      \<and> (\<forall>i < length courts. \<forall>j < length courts. i \<noteq> j \<longrightarrow>
            set (fc_tiles (courts ! i)) \<inter> set (fc_tiles (courts ! j)) = {})
      \<and> set reserved = (\<Union>fc \<in> set courts. set (fc_tiles fc)))"

lemma courtsInv_step:
  assumes "courtsInv visited courts reserved"
    and "growCourt p S c (visited, courts, reserved) = (visited', courts', reserved')"
  shows "courtsInv visited' courts' reserved'"
proof -
  from growCourt_cases [OF assms(2)]
  have sub: "set visited \<subseteq> set visited'"
    and cs: "courts' = courts \<and> reserved' = reserved
        \<or> (\<exists>fc. courts' = courts @ [fc] \<and> set (fc_tiles fc) \<subseteq> set visited' - set visited
              \<and> 20 \<le> length (fc_tiles fc)
              \<and> set reserved' = set reserved \<union> set (fc_tiles fc))" by simp_all
  from cs show ?thesis
  proof
    assume "courts' = courts \<and> reserved' = reserved"
    with assms(1) sub show ?thesis unfolding courtsInv_def by blast
  next
    assume "\<exists>fc. courts' = courts @ [fc] \<and> set (fc_tiles fc) \<subseteq> set visited' - set visited
              \<and> 20 \<le> length (fc_tiles fc)
              \<and> set reserved' = set reserved \<union> set (fc_tiles fc)"
    then obtain fc where c': "courts' = courts @ [fc]"
      and new: "set (fc_tiles fc) \<subseteq> set visited' - set visited"
      and res: "set reserved' = set reserved \<union> set (fc_tiles fc)" by blast
    have old: "\<forall>g \<in> set courts. set (fc_tiles g) \<subseteq> set visited"
      and dis: "\<forall>i < length courts. \<forall>j < length courts. i \<noteq> j \<longrightarrow>
            set (fc_tiles (courts ! i)) \<inter> set (fc_tiles (courts ! j)) = {}"
      and r: "set reserved = (\<Union>g \<in> set courts. set (fc_tiles g))"
      using assms(1) by (simp_all add: courtsInv_def)
    have fresh: "set (fc_tiles (courts ! i)) \<inter> set (fc_tiles fc) = {}" if "i < length courts" for i
    proof -
      from that have "courts ! i \<in> set courts" by simp
      with old have "set (fc_tiles (courts ! i)) \<subseteq> set visited" by blast
      with new show ?thesis by blast
    qed
    show ?thesis
      unfolding courtsInv_def
    proof (intro conjI ballI allI impI)
      fix g assume "g \<in> set courts'"
      with c' old new sub show "set (fc_tiles g) \<subseteq> set visited'" by auto
    next
      fix i j assume i: "i < length courts'" and j: "j < length courts'" and ne: "i \<noteq> j"
      show "set (fc_tiles (courts' ! i)) \<inter> set (fc_tiles (courts' ! j)) = {}"
      proof (cases "i < length courts")
        case True
        show ?thesis
        proof (cases "j < length courts")
          case jl: True
          with True dis ne c' show ?thesis by (simp add: nth_append)
        next
          case False
          with j c' have "j = length courts" by simp
          with True fresh [OF True] c' show ?thesis by (simp add: nth_append)
        qed
      next
        case False
        with i c' have ii: "i = length courts" by simp
        with ne j c' have jl: "j < length courts" by simp
        from fresh [OF jl] ii jl c' show ?thesis by (auto simp: nth_append)
      qed
    next
      show "set reserved' = (\<Union>g \<in> set courts'. set (fc_tiles g))"
        using res r c' by auto
    qed
  qed
qed

lemma courtsInv_fold:
  "courtsInv visited courts reserved \<Longrightarrow>
   fold (growCourt p S) cs (visited, courts, reserved) = (visited', courts', reserved') \<Longrightarrow>
   courtsInv visited' courts' reserved'"
proof (induction cs arbitrary: visited courts reserved)
  case Nil
  then show ?case by simp
next
  case (Cons c cs)
  obtain v1 c1 r1 where s: "growCourt p S c (visited, courts, reserved) = (v1, c1, r1)"
    by (cases "growCourt p S c (visited, courts, reserved)") auto
  with Cons.prems have "fold (growCourt p S) cs (v1, c1, r1) = (visited', courts', reserved')" by simp
  from Cons.IH [OF courtsInv_step [OF Cons.prems(1) s] this] show ?case .
qed

lemma growCourts_inv:
  "growCourts p S cs = (visited, courts, reserved) \<Longrightarrow> courtsInv visited courts reserved"
  unfolding growCourts_def by (rule courtsInv_fold [of "[]" "[]" "[]"]) (simp_all add: courtsInv_def)


lemma strip_flood_12: "courtFlood stripPlan 160 100 (12, 0) [12] [12] [] = (stripTiles, stripTiles)"
  by code_simp

lemma strip_seed_12:
  "growCourt stripPlan stripSettings (12, 0) ([], [], []) = (stripTiles, [stripCourt], stripTiles)"
proof -
  have i: "idByXY stripPlan (12, 0) = Some 12" by code_simp
  have v: "12 \<in> set (validNodeIds stripPlan)" by code_simp
  have fs: "fold set_add stripTiles [] = stripTiles" by code_simp
  have l: "length stripTiles = 21" by code_simp
  show ?thesis
    using strip_flood_12 i v fs l
    by (simp add: growCourt_def stripSettings_def defaultSettings_def set_add_def stripCourt_def
        ceilDiv_def)
qed

lemma strip_seed_0_after:
  "growCourt stripPlan stripSettings (0, 0) (stripTiles, [stripCourt], stripTiles)
     = (stripTiles @ [0, 1], [stripCourt], stripTiles)"
  by code_simp



lemma strip_order_B: "growCourts stripPlan stripSettings [(12, 0), (0, 0)]
    = (stripTiles @ [0, 1], [stripCourt], stripTiles)"
  by (simp add: growCourts_def strip_seed_12 strip_seed_0_after)

lemma strip_centers:
  "stallCenters stripSettings [(0, 0), (12, 0)] = [(0, 0), (12, 0)]"
  "stallCenters stripSettings [(12, 0), (0, 0)] = [(12, 0), (0, 0)]"
  by code_simp+



section \<open>The balanced partition\<close>

definition zonesLe :: "nat list list \<Rightarrow> nat list list \<Rightarrow> bool" where
  "zonesLe zs zs' = (length zs' = length zs \<and> (\<forall>j < length zs. set (zs ! j) \<subseteq> set (zs' ! j)))"

lemma zonesLe_refl: "zonesLe zs zs"
  by (simp add: zonesLe_def)

lemma zonesLe_trans: "zonesLe a b \<Longrightarrow> zonesLe b c \<Longrightarrow> zonesLe a c"
  unfolding zonesLe_def by (metis subset_trans)

lemma zonesLe_update:
  "set (zs ! i) \<subseteq> set z \<Longrightarrow> zonesLe zs (zs[i := z])"
proof -
  assume a: "set (zs ! i) \<subseteq> set z"
  have "set (zs ! j) \<subseteq> set (zs[i := z] ! j)" if "j < length zs" for j
    using a that by (cases "j = i") simp_all
  then show ?thesis by (simp add: zonesLe_def)
qed

definition floodInv :: "nat list \<Rightarrow> nat list list \<Rightarrow> (nat \<rightharpoonup> nat) \<Rightarrow> bool" where
  "floodInv validSet zones claimed =
     ((\<forall>z \<in> set zones. set z \<subseteq> set validSet)
      \<and> (\<forall>v i. claimed v = Some i \<longrightarrow> i < length zones \<and> v \<in> set (zones ! i)))"

definition claimRel :: "nat list \<Rightarrow> nat \<Rightarrow> nat list \<Rightarrow> (nat \<rightharpoonup> nat) \<Rightarrow> nat list \<Rightarrow> (nat \<rightharpoonup> nat) \<Rightarrow> bool" where
  "claimRel validSet i zone claimed zone' claimed' =
     (set zone \<subseteq> set zone' \<and> set zone' \<subseteq> set zone \<union> set validSet
      \<and> (\<forall>v. claimed' v = claimed v \<or> (claimed' v = Some i \<and> v \<in> set zone')))"

lemma claimRel_refl: "claimRel validSet i zone claimed zone claimed"
  by (simp add: claimRel_def)

lemma claimRel_trans:
  assumes "claimRel validSet i z1 c1 z2 c2" and "claimRel validSet i z2 c2 z3 c3"
  shows "claimRel validSet i z1 c1 z3 c3"
  unfolding claimRel_def
proof (intro conjI allI)
  show "set z1 \<subseteq> set z3" using assms unfolding claimRel_def by blast
  show "set z3 \<subseteq> set z1 \<union> set validSet" using assms unfolding claimRel_def by blast
  fix v
  from assms have a: "c2 v = c1 v \<or> (c2 v = Some i \<and> v \<in> set z2)"
    and b: "c3 v = c2 v \<or> (c3 v = Some i \<and> v \<in> set z3)" and s: "set z2 \<subseteq> set z3"
    unfolding claimRel_def by blast+
  then show "c3 v = c1 v \<or> (c3 v = Some i \<and> v \<in> set z3)" by auto
qed

lemma claimRel_claim:
  "nb \<in> set validSet \<Longrightarrow> claimRel validSet i zone claimed (set_add nb zone) (claimed(nb \<mapsto> i))"
  by (auto simp: claimRel_def set_add_def)

lemma claimNbrs_rel:
  "claimNbrs validSet target i nbs (zone, claimed, next, pr) = (zone', claimed', next', pr')
   \<Longrightarrow> claimRel validSet i zone claimed zone' claimed'"
proof (induction validSet target i nbs "(zone, claimed, next, pr)" arbitrary: zone claimed "next" pr
    rule: claimNbrs.induct)
  case (1 validSet target i)
  then show ?case by (simp add: claimRel_refl)
next
  case (2 validSet target i nb nbs zone claimed "next" pr)
  show ?case
  proof (cases "nb \<notin> set validSet \<or> claimed nb \<noteq> None")
    case True
    then have "claimNbrs validSet target i nbs (zone, claimed, next, pr) = (zone', claimed', next', pr')"
      using "2.prems" by (auto split: if_splits)
    with True "2.hyps"(1,2) show ?thesis by auto
  next
    case False
    then have nb: "nb \<in> set validSet" "claimed nb = None" by auto
    have step: "claimRel validSet i zone claimed (set_add nb zone) (claimed(nb \<mapsto> i))"
      using nb(1) by (rule claimRel_claim)
    show ?thesis
    proof (cases "int (length (set_add nb zone)) \<ge> target")
      case True
      with nb "2.prems" have "zone' = set_add nb zone" "claimed' = claimed(nb \<mapsto> i)" by auto
      with step show ?thesis by simp
    next
      case ge: False
      with nb "2.prems"
      have "claimNbrs validSet target i nbs (set_add nb zone, claimed(nb \<mapsto> i), next @ [nb], True)
          = (zone', claimed', next', pr')" by auto
      from "2.hyps"(3) [OF _ _ ge this] nb
      have "claimRel validSet i (set_add nb zone) (claimed(nb \<mapsto> i)) zone' claimed'" by auto
      with step show ?thesis by (rule claimRel_trans)
    qed
  qed
qed

lemma waveLoop_rel:
  "waveLoop es validSet target i wave (zone, claimed, next, pr) = (zone', claimed', next', pr')
   \<Longrightarrow> claimRel validSet i zone claimed zone' claimed'"
proof (induction wave arbitrary: zone claimed "next" pr)
  case Nil
  then show ?case by (simp add: claimRel_refl)
next
  case (Cons v wave)
  show ?case
  proof (cases "int (length zone) < target")
    case False
    with Cons.prems show ?thesis by (simp add: claimRel_refl)
  next
    case True
    obtain z1 c1 n1 p1 where s: "claimNbrs validSet target i (es ! v) (zone, claimed, next, pr) = (z1, c1, n1, p1)"
      by (cases "claimNbrs validSet target i (es ! v) (zone, claimed, next, pr)") auto
    with True Cons.prems have "waveLoop es validSet target i wave (z1, c1, n1, p1) = (zone', claimed', next', pr')"
      by simp
    from claimNbrs_rel [OF s] Cons.IH [OF this] show ?thesis by (rule claimRel_trans)
  qed
qed

lemma floodInv_update:
  assumes inv: "floodInv validSet zones claimed" and i: "i < length zones"
    and rel: "claimRel validSet i (zones ! i) claimed zone' claimed'"
  shows "floodInv validSet (zones[i := zone']) claimed' \<and> zonesLe zones (zones[i := zone'])"
proof
  from rel have sub: "set (zones ! i) \<subseteq> set zone'" and sup: "set zone' \<subseteq> set (zones ! i) \<union> set validSet"
    and cl: "\<And>v. claimed' v = claimed v \<or> (claimed' v = Some i \<and> v \<in> set zone')"
    unfolding claimRel_def by blast+
  from inv have zin: "\<And>z. z \<in> set zones \<Longrightarrow> set z \<subseteq> set validSet"
    and cin: "\<And>v j. claimed v = Some j \<Longrightarrow> j < length zones \<and> v \<in> set (zones ! j)"
    unfolding floodInv_def by blast+
  show "zonesLe zones (zones[i := zone'])" using sub by (rule zonesLe_update)
  show "floodInv validSet (zones[i := zone']) claimed'"
    unfolding floodInv_def
  proof (intro conjI ballI allI impI)
    fix z assume "z \<in> set (zones[i := zone'])"
    then have "z \<in> set zones \<or> z = zone'" using set_update_subset_insert by fastforce
    moreover have "set zone' \<subseteq> set validSet" using sup zin [of "zones ! i"] i by auto
    ultimately show "set z \<subseteq> set validSet" using zin by auto
  next
    fix v j assume c: "claimed' v = Some j"
    show "j < length (zones[i := zone'])"
      using cl [of v] c cin [of v j] i by auto
    show "v \<in> set (zones[i := zone'] ! j)"
    proof (cases "j = i")
      case True
      from cl [of v] c cin [of v j] sub True i show ?thesis by auto
    next
      case False
      from cl [of v] c False have "claimed v = Some j" by auto
      with cin [of v j] False show ?thesis by simp
    qed
  qed
qed

lemma floodZone_inv:
  assumes "floodInv validSet zones claimed" and "i < length zones"
    and "floodZone es validSet target i (zones, frontier, claimed, pr) = (zones', frontier', claimed', pr')"
  shows "floodInv validSet zones' claimed' \<and> zonesLe zones zones'"
proof (cases "int (length (zones ! i)) \<ge> target")
  case True
  with assms show ?thesis by (simp add: floodZone_def zonesLe_refl)
next
  case False
  obtain z1 c1 n1 p1 where s: "waveLoop es validSet target i (frontier ! i) (zones ! i, claimed, [], pr) = (z1, c1, n1, p1)"
    by (cases "waveLoop es validSet target i (frontier ! i) (zones ! i, claimed, [], pr)") auto
  with False assms(3) have "claimed' = c1" "zones' = zones[i := z1]" by (simp_all add: floodZone_def)
  with floodInv_update [OF assms(1,2) waveLoop_rel [OF s]] show ?thesis by simp
qed

lemma floodZones_inv:
  "floodInv validSet zones claimed \<Longrightarrow> \<forall>i \<in> set is. i < length zones \<Longrightarrow>
   fold (floodZone es validSet target) is (zones, frontier, claimed, pr) = (zones', frontier', claimed', pr')
   \<Longrightarrow> floodInv validSet zones' claimed' \<and> zonesLe zones zones'"
proof (induction "is" arbitrary: zones frontier claimed pr)
  case Nil
  then show ?case by (simp add: zonesLe_refl)
next
  case (Cons i "is")
  obtain z1 f1 c1 p1 where s: "floodZone es validSet target i (zones, frontier, claimed, pr) = (z1, f1, c1, p1)"
    by (cases "floodZone es validSet target i (zones, frontier, claimed, pr)") auto
  with Cons.prems have f: "fold (floodZone es validSet target) is (z1, f1, c1, p1) = (zones', frontier', claimed', pr')"
    by simp
  from Cons.prems have i: "i < length zones" by simp
  from floodZone_inv [OF Cons.prems(1) i s]
  have inv1: "floodInv validSet z1 c1" and le1: "zonesLe zones z1" by simp_all
  from le1 have "length z1 = length zones" by (simp add: zonesLe_def)
  with Cons.prems have "\<forall>i \<in> set is. i < length z1" by simp
  from Cons.IH [OF inv1 this f] le1 show ?case by (auto intro: zonesLe_trans)
qed

lemma floodRound_inv:
  assumes "floodInv validSet zones claimed"
    and "floodRound es validSet target (zones, frontier, claimed, pr) = (zones', frontier', claimed', pr')"
  shows "floodInv validSet zones' claimed' \<and> zonesLe zones zones'"
  using floodZones_inv [OF assms(1), of "[0..<length zones]" es target frontier pr zones' frontier' claimed' pr']
    assms(2)
  by (simp add: floodRound_def)

lemma floodLoop_inv:
  "floodInv validSet zones claimed \<Longrightarrow>
   floodLoop es validSet target (zones, frontier, claimed) = (zones', claimed')
   \<Longrightarrow> floodInv validSet zones' claimed' \<and> zonesLe zones zones'"
proof (induction es validSet target "(zones, frontier, claimed)" arbitrary: zones frontier claimed
    rule: floodLoop.induct)
  case (1 es validSet target zones frontier claimed)
  obtain z1 f1 c1 p1 where r: "floodRound es validSet target (zones, frontier, claimed, False) = (z1, f1, c1, p1)"
    by (cases "floodRound es validSet target (zones, frontier, claimed, False)") auto
  from floodRound_inv [OF "1.prems"(1) r]
  have inv1: "floodInv validSet z1 c1" and le1: "zonesLe zones z1" by simp_all
  show ?case
  proof (cases "\<not> p1 \<or> list_all (\<lambda>z. \<not> int (length z) < target) z1")
    case True
    with "1.prems"(2) r have "zones' = z1" "claimed' = c1" by (auto split: if_splits)
    with inv1 le1 show ?thesis by simp
  next
    case False
    with "1.prems"(2) r have l: "floodLoop es validSet target (z1, f1, c1) = (zones', claimed')"
      by (auto split: if_splits)
    from False have p1: "\<not> \<not> p1" and nm: "\<not> list_all (\<lambda>z. \<not> int (length z) < target) z1" by simp_all
    from "1.hyps" [OF r [symmetric] refl refl p1 nm inv1 l] le1
    show ?thesis by (auto intro: zonesLe_trans)
  qed
qed

lemma claimSeed_inv:
  assumes "floodInv validSet zones claimed" and "i < length zones"
    and "claimSeed validSet seeds i (zones, claimed) = (zones', claimed')"
  shows "floodInv validSet zones' claimed' \<and> zonesLe zones zones'
     \<and> (seeds ! i \<in> set validSet \<longrightarrow> zones' ! i \<noteq> [])"
proof (cases "seeds ! i \<in> set validSet")
  case False
  with assms show ?thesis by (simp add: claimSeed_def zonesLe_refl)
next
  case True
  with assms(3) have z: "zones' = zones[i := set_add (seeds ! i) (zones ! i)]"
    and c: "claimed' = claimed(seeds ! i \<mapsto> i)" by (simp_all add: claimSeed_def)
  have "claimRel validSet i (zones ! i) claimed (set_add (seeds ! i) (zones ! i)) (claimed(seeds ! i \<mapsto> i))"
    using True by (rule claimRel_claim)
  from floodInv_update [OF assms(1,2) this] z c assms(2) show ?thesis
    by (auto simp: set_add_def)
qed

lemma zonesLe_nonempty: "zonesLe zs zs' \<Longrightarrow> i < length zs \<Longrightarrow> zs ! i \<noteq> [] \<Longrightarrow> zs' ! i \<noteq> []"
  unfolding zonesLe_def by (metis empty_set subset_empty set_empty)

lemma claimSeeds_inv:
  "floodInv validSet zones claimed \<Longrightarrow> \<forall>i \<in> set is. i < length zones \<Longrightarrow>
   fold (claimSeed validSet seeds) is (zones, claimed) = (zones', claimed')
   \<Longrightarrow> floodInv validSet zones' claimed' \<and> zonesLe zones zones'
      \<and> (\<forall>i \<in> set is. seeds ! i \<in> set validSet \<longrightarrow> zones' ! i \<noteq> [])"
proof (induction "is" arbitrary: zones claimed)
  case Nil
  then show ?case by (simp add: zonesLe_refl)
next
  case (Cons i "is")
  obtain z1 c1 where s: "claimSeed validSet seeds i (zones, claimed) = (z1, c1)"
    by (cases "claimSeed validSet seeds i (zones, claimed)") auto
  with Cons.prems have f: "fold (claimSeed validSet seeds) is (z1, c1) = (zones', claimed')" by simp
  from Cons.prems have i: "i < length zones" by simp
  from claimSeed_inv [OF Cons.prems(1) i s]
  have inv1: "floodInv validSet z1 c1" and le1: "zonesLe zones z1"
    and ne1: "seeds ! i \<in> set validSet \<longrightarrow> z1 ! i \<noteq> []" by simp_all
  from le1 have len: "length z1 = length zones" by (simp add: zonesLe_def)
  with Cons.prems have "\<forall>i \<in> set is. i < length z1" by simp
  from Cons.IH [OF inv1 this f]
  have inv': "floodInv validSet zones' claimed'" and le': "zonesLe z1 zones'"
    and ne': "\<forall>i \<in> set is. seeds ! i \<in> set validSet \<longrightarrow> zones' ! i \<noteq> []" by simp_all
  have "seeds ! i \<in> set validSet \<longrightarrow> zones' ! i \<noteq> []"
    using ne1 zonesLe_nonempty [OF le' _ ] i len by auto
  with inv' le' le1 ne' show ?case by (auto intro: zonesLe_trans)
qed

text \<open>The nearest zone.\<close>

lemma nearest_fold_range:
  "fold (nearestStep p v zones) is (best, bestd) = (b', d') \<Longrightarrow>
   b' = best \<or> (\<exists>i \<in> set is. b' = Some i)"
proof (induction "is" arbitrary: best bestd)
  case Nil
  then show ?case by simp
next
  case (Cons i "is")
  obtain b1 d1 where s: "nearestStep p v zones i (best, bestd) = (b1, d1)"
    by (cases "nearestStep p v zones i (best, bestd)") auto
  then have "b1 = best \<or> b1 = Some i" by (auto simp: nearestStep_def Let_def split: if_splits)
  moreover from Cons.prems s have "fold (nearestStep p v zones) is (b1, d1) = (b', d')" by simp
  from Cons.IH [OF this] have "b' = b1 \<or> (\<exists>i \<in> set is. b' = Some i)" .
  ultimately show ?case by auto
qed

lemma nearest_fold_found:
  "best \<noteq> None \<or> (\<exists>i \<in> set is. zones ! i \<noteq> []
      \<and> manhattan (centroidOfTiles p (zones ! i)) (nodeXY p v) < bestd)
   \<Longrightarrow> fst (fold (nearestStep p v zones) is (best, bestd)) \<noteq> None"
proof (induction "is" arbitrary: best bestd)
  case Nil
  then show ?case by simp
next
  case (Cons i "is")
  obtain b1 d1 where s: "nearestStep p v zones i (best, bestd) = (b1, d1)"
    by (cases "nearestStep p v zones i (best, bestd)") auto
  have "b1 \<noteq> None \<or> (\<exists>i \<in> set is. zones ! i \<noteq> []
      \<and> manhattan (centroidOfTiles p (zones ! i)) (nodeXY p v) < d1)"
  proof (cases "zones ! i \<noteq> [] \<and> manhattan (centroidOfTiles p (zones ! i)) (nodeXY p v) < bestd")
    case True
    with s have "b1 = Some i" by (auto simp: nearestStep_def Let_def)
    then show ?thesis by simp
  next
    case False
    with s have "b1 = best" "d1 = bestd" by (auto simp: nearestStep_def Let_def split: if_splits)
    with False Cons.prems show ?thesis by auto
  qed
  from Cons.IH [OF this] s show ?case by simp
qed

lemma nearestZoneIndex_range:
  "nearestZoneIndex p v zones = Some z \<Longrightarrow> z < length zones"
proof -
  assume a: "nearestZoneIndex p v zones = Some z"
  obtain b' d' where f: "fold (nearestStep p v zones) [0..<length zones] (None, 1000000000) = (b', d')"
    by (cases "fold (nearestStep p v zones) [0..<length zones] (None, 1000000000)") auto
  with a have "b' = Some z" by (auto simp: nearestZoneIndex_def split: if_splits)
  with nearest_fold_range [OF f] show ?thesis by auto
qed

lemma nearestZoneIndex_found:
  assumes "i < length zones" and "zones ! i \<noteq> []"
    and "manhattan (centroidOfTiles p (zones ! i)) (nodeXY p v) < 1000000000"
  shows "nearestZoneIndex p v zones \<noteq> None"
proof -
  have "fst (fold (nearestStep p v zones) [0..<length zones] (None, 1000000000)) \<noteq> None"
    by (rule nearest_fold_found) (use assms in auto)
  moreover have "zones \<noteq> []" using assms(1) by auto
  ultimately show ?thesis by (simp add: nearestZoneIndex_def)
qed

text \<open>Coordinates within a bound: the centroid of a set of tiles stays within it.\<close>

lemma sum_list_bounds:
  "\<forall>t \<in> set ts. 0 \<le> f t \<and> f t \<le> (B::int) \<Longrightarrow>
   0 \<le> sum_list (map f ts) \<and> sum_list (map f ts) \<le> B * int (length ts)"
  by (induction ts) (auto simp: algebra_simps)

lemma div_less_bound: "0 < (c::int) \<Longrightarrow> a < n * c \<Longrightarrow> a div c < n"
proof (rule ccontr)
  assume c: "0 < c" and a: "a < n * c" and "\<not> a div c < n"
  then have "n \<le> a div c" by simp
  then have "c * n \<le> c * (a div c)" using c by (simp add: mult_left_mono)
  moreover have "c * (a div c) + a mod c = a" by simp
  moreover have "0 \<le> a mod c" using c by simp
  ultimately have "c * n \<le> a" by linarith
  with a show False by (simp add: mult.commute)
qed

lemma roundDiv_bounds:
  assumes "0 < c" and "0 \<le> a" and "a \<le> B * c"
  shows "0 \<le> roundDiv a c \<and> roundDiv a c \<le> B"
proof -
  have "0 \<le> (2 * a + c) div (2 * c)" using assms by (simp add: pos_imp_zdiv_nonneg_iff)
  moreover have "(2 * a + c) div (2 * c) \<le> B"
  proof -
    have "2 * a + c < (B + 1) * (2 * c)" using assms by (simp add: algebra_simps)
    then have "(2 * a + c) div (2 * c) < B + 1"
      using assms(1) by (intro div_less_bound) simp_all
    then show ?thesis by simp
  qed
  ultimately show ?thesis by (simp add: roundDiv_def)
qed

lemma centroid_bounds:
  assumes "ts \<noteq> []"
    and "\<forall>t \<in> set ts. 0 \<le> node_x (nodes p ! t) \<and> node_x (nodes p ! t) \<le> B
           \<and> 0 \<le> node_y (nodes p ! t) \<and> node_y (nodes p ! t) \<le> B"
  shows "0 \<le> fst (centroidOfTiles p ts) \<and> fst (centroidOfTiles p ts) \<le> B
     \<and> 0 \<le> snd (centroidOfTiles p ts) \<and> snd (centroidOfTiles p ts) \<le> B"
proof -
  have c: "0 < int (length ts)" using assms(1) by simp
  have x: "0 \<le> sum_list (map (\<lambda>t. node_x (nodes p ! t)) ts)
      \<and> sum_list (map (\<lambda>t. node_x (nodes p ! t)) ts) \<le> B * int (length ts)"
    by (rule sum_list_bounds) (use assms(2) in auto)
  have y: "0 \<le> sum_list (map (\<lambda>t. node_y (nodes p ! t)) ts)
      \<and> sum_list (map (\<lambda>t. node_y (nodes p ! t)) ts) \<le> B * int (length ts)"
    by (rule sum_list_bounds) (use assms(2) in auto)
  from roundDiv_bounds [OF c, of "sum_list (map (\<lambda>t. node_x (nodes p ! t)) ts)" B]
    roundDiv_bounds [OF c, of "sum_list (map (\<lambda>t. node_y (nodes p ! t)) ts)" B] x y
  show ?thesis
    by (simp add: centroidOfTiles_def Let_def)
qed

lemma manhattan_bound:
  assumes "0 \<le> fst a \<and> fst a \<le> B \<and> 0 \<le> snd a \<and> snd a \<le> B"
    and "0 \<le> fst b \<and> fst b \<le> B \<and> 0 \<le> snd b \<and> snd b \<le> B"
  shows "manhattan a b \<le> 2 * B"
  using assms by (simp add: manhattan_def abs_if)

text \<open>The leftover tiles.\<close>

definition coordsBounded :: "plan \<Rightarrow> nat list \<Rightarrow> bool" where
  "coordsBounded p validSet =
     (\<forall>v \<in> set validSet. 0 \<le> node_x (nodes p ! v) \<and> node_x (nodes p ! v) < 500000000
        \<and> 0 \<le> node_y (nodes p ! v) \<and> node_y (nodes p ! v) < 500000000)"

lemma assignLeftover_le: "zonesLe zones (assignLeftover p v zones)"
  by (auto simp: assignLeftover_def zonesLe_refl set_add_def intro!: zonesLe_update split: option.splits)

lemma assignLeftover_in:
  assumes "\<forall>z \<in> set zones. set z \<subseteq> set validSet" and "v \<in> set validSet"
  shows "\<forall>z \<in> set (assignLeftover p v zones). set z \<subseteq> set validSet"
proof (cases "nearestZoneIndex p v zones")
  case None
  with assms show ?thesis by (simp add: assignLeftover_def)
next
  case (Some z)
  then have zl: "z < length zones" by (rule nearestZoneIndex_range)
  have old: "set (zones ! z) \<subseteq> set validSet" using assms(1) zl by simp
  have new: "set (set_add v (zones ! z)) \<subseteq> set validSet"
    using old assms(2) by (auto simp: set_add_def)
  have "set y \<subseteq> set validSet" if "y \<in> set (zones[z := set_add v (zones ! z)])" for y
  proof -
    from that set_update_subset_insert [of zones z "set_add v (zones ! z)"]
    have "y \<in> set zones \<or> y = set_add v (zones ! z)" by auto
    with new assms(1) show ?thesis by auto
  qed
  then show ?thesis using Some by (simp add: assignLeftover_def)
qed

lemma assignLeftover_covers:
  assumes "\<forall>z \<in> set zones. set z \<subseteq> set validSet" and "v \<in> set validSet"
    and "coordsBounded p validSet" and "i < length zones" and "zones ! i \<noteq> []"
  shows "\<exists>j < length zones. v \<in> set (assignLeftover p v zones ! j)"
proof -
  have zi: "set (zones ! i) \<subseteq> set validSet" using assms(1,4) by simp
  have "0 \<le> fst (centroidOfTiles p (zones ! i)) \<and> fst (centroidOfTiles p (zones ! i)) \<le> 499999999
     \<and> 0 \<le> snd (centroidOfTiles p (zones ! i)) \<and> snd (centroidOfTiles p (zones ! i)) \<le> 499999999"
  proof (rule centroid_bounds [OF assms(5)], intro ballI)
    fix t assume "t \<in> set (zones ! i)"
    with zi have "t \<in> set validSet" by auto
    with assms(3) have "0 \<le> node_x (nodes p ! t) \<and> node_x (nodes p ! t) < 500000000
        \<and> 0 \<le> node_y (nodes p ! t) \<and> node_y (nodes p ! t) < 500000000"
      unfolding coordsBounded_def by blast
    then show "0 \<le> node_x (nodes p ! t) \<and> node_x (nodes p ! t) \<le> 499999999
        \<and> 0 \<le> node_y (nodes p ! t) \<and> node_y (nodes p ! t) \<le> 499999999" by simp
  qed
  moreover have "0 \<le> fst (nodeXY p v) \<and> fst (nodeXY p v) \<le> 499999999
     \<and> 0 \<le> snd (nodeXY p v) \<and> snd (nodeXY p v) \<le> 499999999"
  proof -
    from assms(2,3) have "0 \<le> node_x (nodes p ! v) \<and> node_x (nodes p ! v) < 500000000
        \<and> 0 \<le> node_y (nodes p ! v) \<and> node_y (nodes p ! v) < 500000000"
      unfolding coordsBounded_def by blast
    then show ?thesis by (simp add: nodeXY_def)
  qed
  ultimately have "manhattan (centroidOfTiles p (zones ! i)) (nodeXY p v) \<le> 2 * 499999999"
    by (rule manhattan_bound)
  then have "manhattan (centroidOfTiles p (zones ! i)) (nodeXY p v) < 1000000000" by simp
  from nearestZoneIndex_found [OF assms(4,5) this]
  obtain z where z: "nearestZoneIndex p v zones = Some z" by auto
  then have zl: "z < length zones" by (rule nearestZoneIndex_range)
  then have "v \<in> set (assignLeftover p v zones ! z)"
    using z by (simp add: assignLeftover_def set_add_def)
  with zl show ?thesis by blast
qed

lemma leftover_fold:
  assumes "\<forall>z \<in> set zones. set z \<subseteq> set validSet" and "set vs \<subseteq> set validSet"
  shows "zonesLe zones (fold (assignLeftover p) vs zones)
     \<and> (\<forall>z \<in> set (fold (assignLeftover p) vs zones). set z \<subseteq> set validSet)
     \<and> (coordsBounded p validSet \<and> (\<exists>i < length zones. zones ! i \<noteq> []) \<longrightarrow>
          (\<forall>v \<in> set vs. \<exists>j < length zones. v \<in> set (fold (assignLeftover p) vs zones ! j)))"
  using assms
proof (induction vs arbitrary: zones)
  case Nil
  then show ?case by (simp add: zonesLe_refl)
next
  case (Cons v vs)
  let ?z1 = "assignLeftover p v zones"
  have v: "v \<in> set validSet" and vs: "set vs \<subseteq> set validSet" using Cons.prems by simp_all
  have le1: "zonesLe zones ?z1" by (rule assignLeftover_le)
  have in1: "\<forall>z \<in> set ?z1. set z \<subseteq> set validSet" by (rule assignLeftover_in [OF Cons.prems(1) v])
  from Cons.IH [OF in1 vs]
  have le2: "zonesLe ?z1 (fold (assignLeftover p) vs ?z1)"
    and in2: "\<forall>z \<in> set (fold (assignLeftover p) vs ?z1). set z \<subseteq> set validSet"
    and cov2: "coordsBounded p validSet \<and> (\<exists>i < length ?z1. ?z1 ! i \<noteq> []) \<longrightarrow>
          (\<forall>u \<in> set vs. \<exists>j < length ?z1. u \<in> set (fold (assignLeftover p) vs ?z1 ! j))"
    by simp_all
  have len1: "length ?z1 = length zones" using le1 by (simp add: zonesLe_def)
  have "\<forall>u \<in> set (v # vs). \<exists>j < length zones. u \<in> set (fold (assignLeftover p) (v # vs) zones ! j)"
    if b: "coordsBounded p validSet" and ne: "\<exists>i < length zones. zones ! i \<noteq> []"
  proof
    fix u assume u: "u \<in> set (v # vs)"
    from ne obtain i where i: "i < length zones" "zones ! i \<noteq> []" by blast
    have ne1: "\<exists>i < length ?z1. ?z1 ! i \<noteq> []"
      using zonesLe_nonempty [OF le1 i] i len1 by auto
    show "\<exists>j < length zones. u \<in> set (fold (assignLeftover p) (v # vs) zones ! j)"
    proof (cases "u \<in> set vs")
      case True
      with cov2 b ne1 len1 show ?thesis by auto
    next
      case False
      with u have "u = v" by simp
      from assignLeftover_covers [OF Cons.prems(1) v b i]
      obtain j where j: "j < length zones" "v \<in> set (?z1 ! j)" by blast
      with le2 len1 have "v \<in> set (fold (assignLeftover p) vs ?z1 ! j)"
        unfolding zonesLe_def by auto
      with j \<open>u = v\<close> show ?thesis by auto
    qed
  qed
  with le1 le2 in2 show ?case by (auto intro: zonesLe_trans)
qed

text \<open>The whole of \<open>balancedFlood\<close>.\<close>

lemma balancedFlood_cases:
  obtains zones0 claimed0 zones1 claimed1 where
    "fold (claimSeed validSet seeds) [0..<length seeds] (map (\<lambda>s. []) seeds, Map.empty) = (zones0, claimed0)"
    "floodLoop (edges p) validSet target (zones0, map (\<lambda>s. [s]) seeds, claimed0) = (zones1, claimed1)"
    "balancedFlood p validSet seeds target
       = fold (assignLeftover p) (filter (\<lambda>v. claimed1 v = None) validSet) zones1"
    "floodInv validSet zones1 claimed1" "length zones1 = length seeds"
    "\<forall>i < length seeds. seeds ! i \<in> set validSet \<longrightarrow> zones1 ! i \<noteq> []"
proof -
  obtain zones0 claimed0 where
    s: "fold (claimSeed validSet seeds) [0..<length seeds] (map (\<lambda>s. []) seeds, Map.empty) = (zones0, claimed0)"
    by (cases "fold (claimSeed validSet seeds) [0..<length seeds] (map (\<lambda>s. []) seeds, Map.empty)") auto
  obtain zones1 claimed1 where
    l: "floodLoop (edges p) validSet target (zones0, map (\<lambda>s. [s]) seeds, claimed0) = (zones1, claimed1)"
    by (cases "floodLoop (edges p) validSet target (zones0, map (\<lambda>s. [s]) seeds, claimed0)") auto
  have i0: "floodInv validSet (map (\<lambda>s. []) seeds) Map.empty" by (simp add: floodInv_def)
  from claimSeeds_inv [OF i0 _ s]
  have inv0: "floodInv validSet zones0 claimed0" and le0: "zonesLe (map (\<lambda>s. []) seeds) zones0"
    and ne0: "\<forall>i \<in> set [0..<length seeds]. seeds ! i \<in> set validSet \<longrightarrow> zones0 ! i \<noteq> []"
    by simp_all
  from floodLoop_inv [OF inv0 l]
  have inv1: "floodInv validSet zones1 claimed1" and le1: "zonesLe zones0 zones1" by simp_all
  have len0: "length zones0 = length seeds" using le0 by (simp add: zonesLe_def)
  have len1: "length zones1 = length seeds" using le1 len0 by (simp add: zonesLe_def)
  have ne1: "\<forall>i < length seeds. seeds ! i \<in> set validSet \<longrightarrow> zones1 ! i \<noteq> []"
    using ne0 zonesLe_nonempty [OF le1] len0 by auto
  have "balancedFlood p validSet seeds target
       = fold (assignLeftover p) (filter (\<lambda>v. claimed1 v = None) validSet) zones1"
    using s l by (simp add: balancedFlood_def)
  with s l inv1 len1 ne1 that show thesis by blast
qed

lemma balancedFlood_subset:
  "z \<in> set (balancedFlood p validSet seeds target) \<Longrightarrow> set z \<subseteq> set validSet"
proof -
  assume z: "z \<in> set (balancedFlood p validSet seeds target)"
  obtain zones1 claimed1 where
    b: "balancedFlood p validSet seeds target
       = fold (assignLeftover p) (filter (\<lambda>v. claimed1 v = None) validSet) zones1"
    and inv: "floodInv validSet zones1 claimed1"
    by (rule balancedFlood_cases [of validSet seeds p target]) blast
  from inv have "\<forall>z \<in> set zones1. set z \<subseteq> set validSet" by (simp add: floodInv_def)
  from leftover_fold [OF this, of "filter (\<lambda>v. claimed1 v = None) validSet" p] z b
  show ?thesis by auto
qed

text \<open>
  C3 (amended). After growth and leftover assignment every candidate tile is in at least
  one zone, as soon as one seed is a candidate tile and the coordinates are below
  \<open>5 * 10^8\<close> (so that a Manhattan distance stays below the \<open>1e9\<close> that
  \<open>nearestZoneIndex\<close> starts from). This includes the tiles of a component without
  seed: they go to the zone with the nearest centroid.
\<close>

theorem balancedFlood_covers:
  assumes "\<exists>i < length seeds. seeds ! i \<in> set validSet"
    and "coordsBounded p validSet"
    and "v \<in> set validSet"
  shows "\<exists>z \<in> set (balancedFlood p validSet seeds target). v \<in> set z"
proof -
  obtain zones1 claimed1 where
    b: "balancedFlood p validSet seeds target
       = fold (assignLeftover p) (filter (\<lambda>v. claimed1 v = None) validSet) zones1"
    and inv: "floodInv validSet zones1 claimed1" and len: "length zones1 = length seeds"
    and ne: "\<forall>i < length seeds. seeds ! i \<in> set validSet \<longrightarrow> zones1 ! i \<noteq> []"
    by (rule balancedFlood_cases [of validSet seeds p target]) blast
  let ?rem = "filter (\<lambda>v. claimed1 v = None) validSet"
  let ?res = "fold (assignLeftover p) ?rem zones1"
  from inv have zin: "\<forall>z \<in> set zones1. set z \<subseteq> set validSet" by (simp add: floodInv_def)
  from leftover_fold [OF zin, of ?rem p]
  have le: "zonesLe zones1 ?res"
    and cov: "coordsBounded p validSet \<and> (\<exists>i < length zones1. zones1 ! i \<noteq> []) \<longrightarrow>
          (\<forall>v \<in> set ?rem. \<exists>j < length zones1. v \<in> set (?res ! j))" by auto
  have lr: "length ?res = length zones1" using le by (simp add: zonesLe_def)
  have "\<exists>j < length ?res. v \<in> set (?res ! j)"
  proof (cases "claimed1 v")
    case None
    from assms(1) ne len have "\<exists>i < length zones1. zones1 ! i \<noteq> []" by auto
    with cov assms(2,3) None lr show ?thesis by auto
  next
    case (Some i)
    with inv have "i < length zones1" "v \<in> set (zones1 ! i)" by (auto simp: floodInv_def)
    with le lr show ?thesis unfolding zonesLe_def by auto
  qed
  then show ?thesis using b by (metis nth_mem)
qed

theorem balancedFlood_covers_witness:
  "(\<exists>i < length [0::nat]. [0::nat] ! i \<in> set (candidateTiles islandPlan []))
   \<and> coordsBounded islandPlan (candidateTiles islandPlan [])
   \<and> 1 \<in> set (candidateTiles islandPlan [])
   \<and> (\<exists>z \<in> set (balancedFlood islandPlan (candidateTiles islandPlan []) [0] 180). 1 \<in> set z)"
proof -
  have a: "\<exists>i < length [0::nat]. [0::nat] ! i \<in> set (candidateTiles islandPlan [])"
  proof -
    have "[0::nat] ! 0 \<in> set (candidateTiles islandPlan [])" by code_simp
    then show ?thesis by auto
  qed
  have b: "coordsBounded islandPlan (candidateTiles islandPlan [])" by code_simp
  have c: "1 \<in> set (candidateTiles islandPlan [])" by code_simp
  from balancedFlood_covers [OF a b c, of 180] a b c show ?thesis by simp
qed

text \<open>
  C3 (as stated, refuted). On the two-node map without edges, with the one seed on node
  0: node 1 is alone in its component, which holds no seed and touches no zoned tile,
  and yet it is put into zone 0 by the leftover assignment.
\<close>

theorem isolated_tile_is_assigned:
  "edges islandPlan = [[], []]
   \<and> candidateTiles islandPlan [] = [0, 1]
   \<and> balancedFlood islandPlan (candidateTiles islandPlan []) [0] 180 = [[0, 1]]"
  by code_simp

text \<open>The pool of the general zones lies within the candidate tiles.\<close>

lemma set_fold_set_delete: "set (fold set_delete xs acc) \<subseteq> set acc"
proof (induction xs arbitrary: acc)
  case Nil
  show ?case by simp
next
  case (Cons a xs)
  have "set (fold set_delete xs (set_delete a acc)) \<subseteq> set (set_delete a acc)" by (rule Cons.IH)
  also have "\<dots> \<subseteq> set acc" by (auto simp: set_delete_def)
  finally show ?case by simp
qed

lemma courtZone_pool:
  "fold (courtZone p) courts (zones, valid) = (zones', valid') \<Longrightarrow> set valid' \<subseteq> set valid"
proof (induction courts arbitrary: zones valid)
  case Nil
  then show ?case by simp
next
  case (Cons c courts)
  obtain z1 v1 where s: "courtZone p c (zones, valid) = (z1, v1)"
    by (cases "courtZone p c (zones, valid)") auto
  then have "v1 = valid \<or> (\<exists>zt. v1 = fold set_delete zt valid)"
    by (auto simp: courtZone_def Let_def split: if_splits)
  then have "set v1 \<subseteq> set valid"
    using set_fold_set_delete [of _ valid] by auto
  moreover from Cons.prems s have "fold (courtZone p) courts (z1, v1) = (zones', valid')" by simp
  from Cons.IH [OF this] have "set valid' \<subseteq> set v1" .
  ultimately show ?case by blast
qed

lemma handymanPool_subset:
  "handymanPool p S courts reserved = (zones0, valid) \<Longrightarrow> set valid \<subseteq> set (candidateTiles p reserved)"
  using courtZone_pool [of p courts "[]" "candidateTiles p reserved" zones0 valid]
  by (auto simp: handymanPool_def split: if_splits)

lemma grownZones_subset:
  assumes "z \<in> set (grownZones p S courts reserved available r)"
  shows "set z \<subseteq> set (validNodeIds p) - set reserved"
proof -
  obtain zones0 valid where h: "handymanPool p S courts reserved = (zones0, valid)"
    by (cases "handymanPool p S courts reserved") auto
  with assms have "z \<in> set (balancedFlood p valid (handymanSeeds p S valid available r) (tilesPerHandyman S))"
    by (simp add: grownZones_def)
  then have "set z \<subseteq> set valid" by (rule balancedFlood_subset)
  with handymanPool_subset [OF h] show ?thesis by (auto simp: candidateTiles_def)
qed

text \<open>
  C6. The tile sets of two different food courts of one detection run are disjoint, and
  every court is disjoint from every tile set that the balanced partitioner grows
  (before rescue), because the partitioner works on the valid nodes that are not
  reserved.
\<close>

theorem foodCourts_disjoint:
  assumes "detectFoodCourts p S shopEntrances = (courts, reserved)"
  shows "(\<forall>i < length courts. \<forall>j < length courts. i \<noteq> j \<longrightarrow>
            set (fc_tiles (courts ! i)) \<inter> set (fc_tiles (courts ! j)) = {})
     \<and> (\<forall>fc \<in> set courts. \<forall>z \<in> set (grownZones p S courts reserved available r).
            set (fc_tiles fc) \<inter> set z = {})"
proof -
  obtain visited where g: "growCourts p S (stallCenters S shopEntrances) = (visited, courts, reserved)"
    using assms by (cases "growCourts p S (stallCenters S shopEntrances)") (auto simp: detectFoodCourts_def)
  from growCourts_inv [OF g]
  have dis: "\<forall>i < length courts. \<forall>j < length courts. i \<noteq> j \<longrightarrow>
            set (fc_tiles (courts ! i)) \<inter> set (fc_tiles (courts ! j)) = {}"
    and res: "set reserved = (\<Union>fc \<in> set courts. set (fc_tiles fc))"
    by (simp_all add: courtsInv_def)
  have "set (fc_tiles fc) \<inter> set z = {}"
    if "fc \<in> set courts" "z \<in> set (grownZones p S courts reserved available r)" for fc z
  proof -
    from that(1) res have "set (fc_tiles fc) \<subseteq> set reserved" by auto
    with grownZones_subset [OF that(2)] show ?thesis by auto
  qed
  with dis show ?thesis by blast
qed

theorem foodCourts_disjoint_witness:
  "detectFoodCourts stripPlan stripSettings [(12, 0), (0, 0)] = ([stripCourt], stripTiles)
   \<and> grownZones stripPlan stripSettings [stripCourt] stripTiles 0 0 = [[0, 1, 23, 24]]
   \<and> set (fc_tiles stripCourt) \<inter> set [0, 1, 23, 24] = {}"
proof -
  have d: "detectFoodCourts stripPlan stripSettings [(12, 0), (0, 0)] = ([stripCourt], stripTiles)"
    by (simp add: detectFoodCourts_def strip_centers strip_order_B)
  have z: "grownZones stripPlan stripSettings [stripCourt] stripTiles 0 0 = [[0, 1, 23, 24]]"
    by code_simp
  from foodCourts_disjoint [OF d, of 0 0] z
  have "set (fc_tiles stripCourt) \<inter> set [0, 1, 23, 24] = {}" by simp
  with d z show ?thesis by simp
qed

section \<open>The exit distance matrix\<close>

lemma bfsVisit_keeps:
  "bfsVisit p v nb (dist, prev, q) = (dist', prev', q') \<Longrightarrow> dist k = Some d \<Longrightarrow> dist' k = Some d"
  by (auto simp: bfsVisit_def split: if_splits)

lemma bfsVisit_fold_keeps:
  "fold (bfsVisit p v) nbs (dist, prev, q) = (dist', prev', q') \<Longrightarrow> dist k = Some d \<Longrightarrow> dist' k = Some d"
proof (induction nbs arbitrary: dist prev q)
  case Nil
  then show ?case by simp
next
  case (Cons nb nbs)
  obtain d1 p1 q1 where s: "bfsVisit p v nb (dist, prev, q) = (d1, p1, q1)"
    by (cases "bfsVisit p v nb (dist, prev, q)") auto
  with Cons.prems have f: "fold (bfsVisit p v) nbs (d1, p1, q1) = (dist', prev', q')" by simp
  from bfsVisit_keeps [OF s Cons.prems(2)] have "d1 k = Some d" .
  from Cons.IH [OF f this] show ?case .
qed

lemma bfsLoop_keeps:
  "dist k = Some d \<Longrightarrow> fst (bfsLoop p dist prev q) k = Some d"
proof (induction p dist prev q rule: bfsLoop.induct)
  case (1 p dist prev)
  then show ?case by simp
next
  case (2 p dist prev v q)
  obtain d1 p1 q1 where s: "fold (bfsVisit p v) (edges p ! v) (dist, prev, q) = (d1, p1, q1)"
    by (cases "fold (bfsVisit p v) (edges p ! v) (dist, prev, q)") auto
  from bfsVisit_fold_keeps [OF s "2.prems"] have "d1 k = Some d" .
  from "2.IH" [OF s [symmetric] refl this] s show ?case by simp
qed

lemma bfsDistances_start: "fst (bfsDistances p a) a = Some 0"
  unfolding bfsDistances_def by (rule bfsLoop_keeps) simp

text \<open>
  C9. In the distance matrix an entry whose breadth-first distance is 0 holds the
  sentinel \<open>1e9\<close>: every diagonal entry, and every entry for two exits on the same node.
\<close>

theorem distMatrix_zero_is_sentinel:
  assumes "i < length exits" and "j < length exits"
    and "ex_nodeId (exits ! i) = ex_nodeId (exits ! j)"
  shows "fst (bfsDistances p (ex_nodeId (exits ! i))) (ex_nodeId (exits ! j)) = Some 0
     \<and> distMatrix p exits ! i ! j = 1000000000
     \<and> distMatrix p exits ! i ! i = 1000000000"
proof -
  have z: "fst (bfsDistances p (ex_nodeId (exits ! i))) (ex_nodeId (exits ! j)) = Some 0"
    using assms(3) bfsDistances_start [of p "ex_nodeId (exits ! i)"] by simp
  have "distMatrix p exits ! i ! j
      = orSentinel (fst (bfsDistances p (ex_nodeId (exits ! i))) (ex_nodeId (exits ! j)))"
    using assms(1,2) by (simp add: distMatrix_def)
  with z have ij: "distMatrix p exits ! i ! j = 1000000000" by (simp add: orSentinel_def)
  have "distMatrix p exits ! i ! i
      = orSentinel (fst (bfsDistances p (ex_nodeId (exits ! i))) (ex_nodeId (exits ! i)))"
    using assms(1) by (simp add: distMatrix_def)
  then have "distMatrix p exits ! i ! i = 1000000000"
    by (simp add: bfsDistances_start orSentinel_def)
  with z ij show ?thesis by simp
qed

theorem distMatrix_zero_is_sentinel_witness:
  "map ex_nodeId twinExits = [0, 0, 1]
   \<and> 0 < length twinExits \<and> 1 < length twinExits
   \<and> ex_nodeId (twinExits ! 0) = ex_nodeId (twinExits ! 1)
   \<and> distMatrix twinPlan twinExits ! 0 ! 1 = 1000000000
   \<and> distMatrix twinPlan twinExits ! 0 ! 0 = 1000000000"
proof -
  have a: "map ex_nodeId twinExits = [0, 0, 1]" by code_simp
  have l: "0 < length twinExits" "1 < length twinExits"
    using arg_cong [OF a, of length] by simp_all
  have e: "ex_nodeId (twinExits ! 0) = ex_nodeId (twinExits ! 1)"
    using arg_cong [OF a, of "\<lambda>xs. xs ! 0"] arg_cong [OF a, of "\<lambda>xs. xs ! 1"] l by simp
  from distMatrix_zero_is_sentinel [OF l e, of twinPlan] a l e show ?thesis by simp
qed

section \<open>The route tree is a minimum spanning tree\<close>

text \<open>
  Edges are read as undirected: a list of pairs connects a set of sources to everything
  that the pairs reach from it, in either direction.
\<close>

inductive_set reachable :: "(nat \<times> nat) list \<Rightarrow> nat set \<Rightarrow> nat set"
  for T :: "(nat \<times> nat) list" and U :: "nat set" where
  base: "u \<in> U \<Longrightarrow> u \<in> reachable T U"
| fwd: "a \<in> reachable T U \<Longrightarrow> (a, b) \<in> set T \<Longrightarrow> b \<in> reachable T U"
| bwd: "a \<in> reachable T U \<Longrightarrow> (b, a) \<in> set T \<Longrightarrow> b \<in> reachable T U"

definition spanningTree :: "nat list \<Rightarrow> (nat \<times> nat) list \<Rightarrow> bool" where
  "spanningTree c T =
     ((\<forall>e \<in> set T. fst e \<in> set c \<and> snd e \<in> set c)
      \<and> length T = length c - 1
      \<and> (\<forall>u \<in> set c. \<forall>v \<in> set c. v \<in> reachable T {u}))"

lemma reachable_trans:
  "y \<in> reachable T U \<Longrightarrow> U \<subseteq> reachable T V \<Longrightarrow> y \<in> reachable T V"
  by (induction rule: reachable.induct) (auto intro: reachable.fwd reachable.bwd)

lemma reachable_mono:
  "y \<in> reachable T U \<Longrightarrow> U \<subseteq> V \<Longrightarrow> set T \<subseteq> set T' \<Longrightarrow> y \<in> reachable T' V"
  by (induction rule: reachable.induct) (auto intro: reachable.intros)

lemma reachable_sym: "x \<in> reachable T {s} \<Longrightarrow> s \<in> reachable T {x}"
proof (induction rule: reachable.induct)
  case (base u)
  then show ?case by (auto intro: reachable.base)
next
  case (fwd a b)
  have "a \<in> reachable T {b}" by (rule reachable.bwd [OF reachable.base fwd.hyps(2)]) simp
  then have "{a} \<subseteq> reachable T {b}" by simp
  from reachable_trans [OF fwd.IH this] show ?case .
next
  case (bwd a b)
  have "a \<in> reachable T {b}" by (rule reachable.fwd [OF reachable.base bwd.hyps(2)]) simp
  then have "{a} \<subseteq> reachable T {b}" by simp
  from reachable_trans [OF bwd.IH this] show ?case .
qed

text \<open>An edge that leaves the source set on the way to \<open>v\<close>.\<close>

lemma cut_edge:
  "v \<in> reachable T U \<Longrightarrow> v \<notin> U \<Longrightarrow>
   \<exists>e a b. e \<in> set T \<and> (e = (a, b) \<or> e = (b, a)) \<and> a \<in> U \<and> b \<notin> U
     \<and> v \<in> reachable (remove1 e T) {b}"
proof (induction rule: reachable.induct)
  case (base u)
  then show ?case by simp
next
  case (fwd a' v)
  show ?case
  proof (cases "a' \<in> U")
    case True
    have "v \<in> reachable (remove1 (a', v) T) {v}" by (rule reachable.base) simp
    with True fwd.hyps(2) fwd.prems show ?thesis by blast
  next
    case False
    from fwd.IH [OF False] obtain e a b where e: "e \<in> set T" "e = (a, b) \<or> e = (b, a)"
      "a \<in> U" "b \<notin> U" "a' \<in> reachable (remove1 e T) {b}" by blast
    have "(a', v) \<noteq> e" using e(2,3) False fwd.prems by auto
    with fwd.hyps(2) have "(a', v) \<in> set (remove1 e T)" by simp
    with e(5) have "v \<in> reachable (remove1 e T) {b}" by (rule reachable.fwd)
    with e show ?thesis by blast
  qed
next
  case (bwd a' v)
  show ?case
  proof (cases "a' \<in> U")
    case True
    have "v \<in> reachable (remove1 (v, a') T) {v}" by (rule reachable.base) simp
    with True bwd.hyps(2) bwd.prems show ?thesis by blast
  next
    case False
    from bwd.IH [OF False] obtain e a b where e: "e \<in> set T" "e = (a, b) \<or> e = (b, a)"
      "a \<in> U" "b \<notin> U" "a' \<in> reachable (remove1 e T) {b}" by blast
    have "(v, a') \<noteq> e" using e(2,3) False bwd.prems by auto
    with bwd.hyps(2) have "(v, a') \<in> set (remove1 e T)" by simp
    with e(5) have "v \<in> reachable (remove1 e T) {b}" by (rule reachable.bwd)
    with e show ?thesis by blast
  qed
qed

text \<open>After the exchange everything is still connected to the enlarged source set.\<close>

lemma exchange_keeps:
  assumes e: "e = (a, b) \<or> e = (b, a)" and a: "a \<in> U"
    and vb: "v \<in> reachable (remove1 e T) {b}"
    and x: "x \<in> reachable T U"
  shows "x \<in> reachable (remove1 e T) (insert v U)"
  using x
proof (induction rule: reachable.induct)
  case (base u)
  then show ?case by (auto intro: reachable.base)
next
  case (fwd x' x)
  show ?case
  proof (cases "(x', x) = e")
    case False
    with fwd.hyps(2) have "(x', x) \<in> set (remove1 e T)" by simp
    with fwd.IH show ?thesis by (rule reachable.fwd)
  next
    case True
    with e have "x = a \<or> x = b" by auto
    then show ?thesis
    proof
      assume "x = a"
      with a show ?thesis by (auto intro: reachable.base)
    next
      assume "x = b"
      from reachable_sym [OF vb] have "b \<in> reachable (remove1 e T) {v}" .
      then have "b \<in> reachable (remove1 e T) (insert v U)"
        by (rule reachable_mono) auto
      with \<open>x = b\<close> show ?thesis by simp
    qed
  qed
next
  case (bwd x' x)
  show ?case
  proof (cases "(x, x') = e")
    case False
    with bwd.hyps(2) have "(x, x') \<in> set (remove1 e T)" by simp
    with bwd.IH show ?thesis by (rule reachable.bwd)
  next
    case True
    with e have "x = a \<or> x = b" by auto
    then show ?thesis
    proof
      assume "x = a"
      with a show ?thesis by (auto intro: reachable.base)
    next
      assume "x = b"
      from reachable_sym [OF vb] have "b \<in> reachable (remove1 e T) {v}" .
      then have "b \<in> reachable (remove1 e T) (insert v U)"
        by (rule reachable_mono) auto
      with \<open>x = b\<close> show ?thesis by simp
    qed
  qed
qed

text \<open>What the choice of Prim's step answers.\<close>

lemma primInner_fold:
  "fold (primInner dist used u) vs (b0, w0) = (b1, w1) \<Longrightarrow>
   w1 \<le> w0
   \<and> (\<forall>v \<in> set vs. v \<notin> set used \<longrightarrow> w1 \<le> dist ! u ! v)
   \<and> ((b1, w1) = (b0, w0) \<or> (\<exists>v \<in> set vs. v \<notin> set used \<and> b1 = Some (u, v) \<and> w1 = dist ! u ! v \<and> w1 < w0))"
proof (induction vs arbitrary: b0 w0)
  case Nil
  then show ?case by simp
next
  case (Cons v vs)
  obtain b2 w2 where s: "primInner dist used u v (b0, w0) = (b2, w2)"
    by (cases "primInner dist used u v (b0, w0)") auto
  with Cons.prems have f: "fold (primInner dist used u) vs (b2, w2) = (b1, w1)" by simp
  from Cons.IH [OF f]
  have le: "w1 \<le> w2" and all: "\<forall>v \<in> set vs. v \<notin> set used \<longrightarrow> w1 \<le> dist ! u ! v"
    and ch: "(b1, w1) = (b2, w2) \<or> (\<exists>v \<in> set vs. v \<notin> set used \<and> b1 = Some (u, v) \<and> w1 = dist ! u ! v \<and> w1 < w2)"
    by simp_all
  from s have s2: "w2 \<le> w0 \<and> (v \<notin> set used \<longrightarrow> w2 \<le> dist ! u ! v)
      \<and> ((b2, w2) = (b0, w0) \<or> (v \<notin> set used \<and> b2 = Some (u, v) \<and> w2 = dist ! u ! v \<and> w2 < w0))"
    by (auto simp: primInner_def split: if_splits)
  show ?case
  proof (intro conjI ballI impI)
    show "w1 \<le> w0" using le s2 by simp
  next
    fix v' assume "v' \<in> set (v # vs)" "v' \<notin> set used"
    then show "w1 \<le> dist ! u ! v'" using all le s2 by auto
  next
    show "(b1, w1) = (b0, w0) \<or> (\<exists>v \<in> set (v # vs). v \<notin> set used \<and> b1 = Some (u, v) \<and> w1 = dist ! u ! v \<and> w1 < w0)"
    proof (cases "(b1, w1) = (b2, w2)")
      case True
      with s2 show ?thesis by auto
    next
      case False
      with ch obtain v' where "v' \<in> set vs" "v' \<notin> set used" "b1 = Some (u, v')"
        "w1 = dist ! u ! v'" "w1 < w2" by blast
      moreover have "w2 \<le> w0" using s2 by simp
      ultimately show ?thesis by force
    qed
  qed
qed

lemma primOuter_fold:
  "fold (\<lambda>u st. fold (primInner dist used u) c st) us (b0, w0) = (b1, w1) \<Longrightarrow>
   w1 \<le> w0
   \<and> (\<forall>u \<in> set us. \<forall>v \<in> set c. v \<notin> set used \<longrightarrow> w1 \<le> dist ! u ! v)
   \<and> ((b1, w1) = (b0, w0)
      \<or> (\<exists>u \<in> set us. \<exists>v \<in> set c. v \<notin> set used \<and> b1 = Some (u, v) \<and> w1 = dist ! u ! v \<and> w1 < w0))"
proof (induction us arbitrary: b0 w0)
  case Nil
  then show ?case by simp
next
  case (Cons u us)
  obtain b2 w2 where s: "fold (primInner dist used u) c (b0, w0) = (b2, w2)"
    by (cases "fold (primInner dist used u) c (b0, w0)") auto
  with Cons.prems have f: "fold (\<lambda>u st. fold (primInner dist used u) c st) us (b2, w2) = (b1, w1)"
    by simp
  from Cons.IH [OF f]
  have le: "w1 \<le> w2"
    and all: "\<forall>u \<in> set us. \<forall>v \<in> set c. v \<notin> set used \<longrightarrow> w1 \<le> dist ! u ! v"
    and ch: "(b1, w1) = (b2, w2)
      \<or> (\<exists>u \<in> set us. \<exists>v \<in> set c. v \<notin> set used \<and> b1 = Some (u, v) \<and> w1 = dist ! u ! v \<and> w1 < w2)"
    by simp_all
  from primInner_fold [OF s]
  have le2: "w2 \<le> w0" and all2: "\<forall>v \<in> set c. v \<notin> set used \<longrightarrow> w2 \<le> dist ! u ! v"
    and ch2: "(b2, w2) = (b0, w0)
      \<or> (\<exists>v \<in> set c. v \<notin> set used \<and> b2 = Some (u, v) \<and> w2 = dist ! u ! v \<and> w2 < w0)"
    by simp_all
  show ?case
  proof (intro conjI ballI impI)
    show "w1 \<le> w0" using le le2 by simp
  next
    fix u' v' assume "u' \<in> set (u # us)" "v' \<in> set c" "v' \<notin> set used"
    then show "w1 \<le> dist ! u' ! v'" using all all2 le by auto
  next
    show "(b1, w1) = (b0, w0)
      \<or> (\<exists>u \<in> set (u # us). \<exists>v \<in> set c. v \<notin> set used \<and> b1 = Some (u, v) \<and> w1 = dist ! u ! v \<and> w1 < w0)"
    proof (cases "(b1, w1) = (b2, w2)")
      case True
      with ch2 show ?thesis by auto
    next
      case False
      with ch obtain u' v' where "u' \<in> set us" "v' \<in> set c" "v' \<notin> set used"
        "b1 = Some (u', v')" "w1 = dist ! u' ! v'" "w1 < w2" by blast
      with le2 show ?thesis by force
    qed
  qed
qed

lemma primPick_least:
  assumes "u \<in> set used" and "v \<in> set c" and "v \<notin> set used" and "dist ! u ! v < 1000000000"
  shows "\<exists>a b. fst (primPick dist c used) = Some (a, b) \<and> a \<in> set used \<and> b \<in> set c \<and> b \<notin> set used
     \<and> (\<forall>u' \<in> set used. \<forall>v' \<in> set c. v' \<notin> set used \<longrightarrow> dist ! a ! b \<le> dist ! u' ! v')"
proof -
  obtain b1 w1 where p: "primPick dist c used = (b1, w1)" by (cases "primPick dist c used") auto
  then have f: "fold (\<lambda>u st. fold (primInner dist used u) c st) used (None, 1000000000) = (b1, w1)"
    by (simp add: primPick_def)
  from primOuter_fold [OF f]
  have all: "\<forall>u \<in> set used. \<forall>v \<in> set c. v \<notin> set used \<longrightarrow> w1 \<le> dist ! u ! v"
    and ch: "(b1, w1) = (None, 1000000000)
      \<or> (\<exists>u \<in> set used. \<exists>v \<in> set c. v \<notin> set used \<and> b1 = Some (u, v) \<and> w1 = dist ! u ! v \<and> w1 < 1000000000)"
    by simp_all
  from all assms have "w1 \<le> dist ! u ! v" by blast
  with assms(4) have "w1 \<noteq> 1000000000" by simp
  with ch obtain a b where "a \<in> set used" "b \<in> set c" "b \<notin> set used" "b1 = Some (a, b)"
    "w1 = dist ! a ! b" by auto
  with all p show ?thesis by auto
qed

text \<open>The loop only appends to the edge list.\<close>

lemma primLoop_unfold:
  "primLoop dist c used acc =
     (if length used < length c
      then (case fst (primPick dist c used) of
              None \<Rightarrow> acc
            | Some (bestU, bestV) \<Rightarrow> primLoop dist c (set_add bestV used) (acc @ [(bestU, bestV)]))
      else acc)"
  by (rule primLoop.simps)

lemma primLoop_acc: "primLoop dist c used acc = acc @ primLoop dist c used []"
proof (induction "length c - length used" arbitrary: used acc rule: less_induct)
  case less
  show ?case
  proof (cases "length used < length c")
    case False
    have "primLoop dist c used acc = acc" using False by (subst primLoop_unfold) simp
    moreover have "primLoop dist c used [] = []" using False by (subst primLoop_unfold) simp
    ultimately show ?thesis by simp
  next
    case True
    show ?thesis
    proof (cases "fst (primPick dist c used)")
      case None
      have "primLoop dist c used acc = acc" using True None by (subst primLoop_unfold) simp
      moreover have "primLoop dist c used [] = []" using True None by (subst primLoop_unfold) simp
      ultimately show ?thesis by simp
    next
      case (Some e)
      obtain a b where e: "e = (a, b)" by (cases e) auto
      with Some have "b \<notin> set used" by (intro primPick_fresh [of dist c used a b]) simp
      then have l: "length (set_add b used) = Suc (length used)" by (simp add: set_add_def)
      with True have m: "length c - length (set_add b used) < length c - length used" by simp
      have 1: "primLoop dist c used acc = primLoop dist c (set_add b used) (acc @ [(a, b)])"
        using True Some e by (subst primLoop_unfold) simp
      have 2: "primLoop dist c used [] = primLoop dist c (set_add b used) [(a, b)]"
        using True Some e by (subst primLoop_unfold) simp
      have 3: "primLoop dist c (set_add b used) (acc @ [(a, b)])
          = (acc @ [(a, b)]) @ primLoop dist c (set_add b used) []"
        by (rule less [OF m])
      have 4: "primLoop dist c (set_add b used) [(a, b)]
          = [(a, b)] @ primLoop dist c (set_add b used) []"
        by (rule less [OF m])
      show ?thesis by (simp only: 1 2 3 4 append_assoc)
    qed
  qed
qed

lemma primLoop_done: "\<not> length used < length c \<Longrightarrow> primLoop dist c used [] = []"
  by (subst primLoop_unfold) simp

lemma primLoop_step:
  "length used < length c \<Longrightarrow> fst (primPick dist c used) = Some (a, b) \<Longrightarrow>
   primLoop dist c used [] = (a, b) # primLoop dist c (used @ [b]) []"
proof -
  assume l: "length used < length c" and p: "fst (primPick dist c used) = Some (a, b)"
  from p have "b \<notin> set used" by (rule primPick_fresh)
  then have u: "set_add b used = used @ [b]" by (simp add: set_add_def)
  have "primLoop dist c used [] = primLoop dist c (set_add b used) [(a, b)]"
    using l p by (subst primLoop_unfold) simp
  also have "\<dots> = [(a, b)] @ primLoop dist c (set_add b used) []" by (rule primLoop_acc)
  finally show ?thesis using u by simp
qed

text \<open>The state of the loop: the used members, within a cluster whose weights are finite.\<close>

definition primState :: "int list list \<Rightarrow> nat list \<Rightarrow> nat list \<Rightarrow> bool" where
  "primState dist c used =
     (distinct c \<and> distinct used \<and> used \<noteq> [] \<and> set used \<subseteq> set c
      \<and> (\<forall>u \<in> set c. \<forall>v \<in> set c. u \<noteq> v \<longrightarrow> dist ! u ! v < 1000000000))"

lemma primState_full:
  assumes "primState dist c used" and "\<not> length used < length c"
  shows "set used = set c \<and> length used = length c"
proof -
  from assms(1) have d: "distinct c" "distinct used" and s: "set used \<subseteq> set c"
    by (simp_all add: primState_def)
  have "card (set used) \<le> card (set c)" using s by (intro card_mono) auto
  then have le: "length used \<le> length c" using d by (simp add: distinct_card)
  with assms(2) have eq: "length used = length c" by simp
  then have "card (set used) = card (set c)" using d by (simp add: distinct_card)
  with s have "set used = set c" by (intro card_subset_eq) auto
  with eq show ?thesis by simp
qed

lemma primState_pick:
  assumes "primState dist c used" and "length used < length c"
  shows "\<exists>a b. fst (primPick dist c used) = Some (a, b) \<and> a \<in> set used \<and> b \<in> set c \<and> b \<notin> set used
     \<and> (\<forall>u' \<in> set used. \<forall>v' \<in> set c. v' \<notin> set used \<longrightarrow> dist ! a ! b \<le> dist ! u' ! v')
     \<and> primState dist c (used @ [b])"
proof -
  from assms(1) have d: "distinct c" "distinct used" and ne: "used \<noteq> []" and s: "set used \<subseteq> set c"
    and fin: "\<forall>u \<in> set c. \<forall>v \<in> set c. u \<noteq> v \<longrightarrow> dist ! u ! v < 1000000000"
    by (simp_all add: primState_def)
  have "card (set used) < card (set c)" using assms(2) d by (simp add: distinct_card)
  then have "set used \<noteq> set c" by auto
  with s obtain v where v: "v \<in> set c" "v \<notin> set used" by auto
  from ne obtain u where u: "u \<in> set used" by (cases used) auto
  with s have uc: "u \<in> set c" by auto
  from u v have "u \<noteq> v" by auto
  with fin uc v have "dist ! u ! v < 1000000000" by blast
  from primPick_least [OF u v this] obtain a b where
    p: "fst (primPick dist c used) = Some (a, b)" "a \<in> set used" "b \<in> set c" "b \<notin> set used"
      "\<forall>u' \<in> set used. \<forall>v' \<in> set c. v' \<notin> set used \<longrightarrow> dist ! a ! b \<le> dist ! u' ! v'" by blast
  have "primState dist c (used @ [b])"
    using assms(1) p(3,4) by (simp add: primState_def)
  with p show ?thesis by blast
qed

lemma prim_tree:
  "primState dist c used \<Longrightarrow>
   length (primLoop dist c used []) = length c - length used
   \<and> (\<forall>e \<in> set (primLoop dist c used []). fst e \<in> set c \<and> snd e \<in> set c)
   \<and> set c \<subseteq> reachable (primLoop dist c used []) (set used)"
proof (induction "length c - length used" arbitrary: used rule: less_induct)
  case less
  show ?case
  proof (cases "length used < length c")
    case False
    from primState_full [OF less.prems False] primLoop_done [OF False, of dist]
    show ?thesis by (auto intro: reachable.base)
  next
    case True
    from primState_pick [OF less.prems True] obtain a b where
      p: "fst (primPick dist c used) = Some (a, b)" and a: "a \<in> set used" and b: "b \<in> set c"
      and st: "primState dist c (used @ [b])" by blast
    let ?R' = "primLoop dist c (used @ [b]) []"
    let ?R = "primLoop dist c used []"
    have R: "?R = (a, b) # ?R'" by (rule primLoop_step [OF True p])
    have m: "length c - length (used @ [b]) < length c - length used" using True by simp
    have IH: "length ?R' = length c - length (used @ [b])
      \<and> (\<forall>e \<in> set ?R'. fst e \<in> set c \<and> snd e \<in> set c)
      \<and> set c \<subseteq> reachable ?R' (set (used @ [b]))"
      by (rule less.hyps [OF m st])
    from IH have len: "length ?R' = length c - length (used @ [b])" by (rule conjunct1)
    from IH have ed: "\<forall>e \<in> set ?R'. fst e \<in> set c \<and> snd e \<in> set c" by blast
    from IH have re: "set c \<subseteq> reachable ?R' (set (used @ [b]))" by blast
    from less.prems have uc: "set used \<subseteq> set c" by (simp add: primState_def)
    have ar: "a \<in> reachable ?R (set used)" using a by (rule reachable.base)
    have br: "b \<in> reachable ?R (set used)"
      by (rule reachable.fwd [OF ar]) (simp add: R)
    have src: "set (used @ [b]) \<subseteq> reachable ?R (set used)"
      using br by (auto intro: reachable.base)
    have "set c \<subseteq> reachable ?R (set used)"
    proof
      fix x assume "x \<in> set c"
      with re have "x \<in> reachable ?R' (set (used @ [b]))" by auto
      then have "x \<in> reachable ?R (set (used @ [b]))"
        by (rule reachable_mono) (auto simp: R)
      then show "x \<in> reachable ?R (set used)" using src by (rule reachable_trans)
    qed
    moreover have "length ?R = length c - length used" using R len True by simp
    moreover have "\<forall>e \<in> set ?R. fst e \<in> set c \<and> snd e \<in> set c"
      using R ed a b uc by auto
    ultimately show ?thesis by simp
  qed
qed

lemma routeWeight_Cons: "routeWeight dist ((a, b) # es) = dist ! a ! b + routeWeight dist es"
  by (simp add: routeWeight_def)

lemma routeWeight_remove1:
  "e \<in> set T \<Longrightarrow> routeWeight dist T = dist ! fst e ! snd e + routeWeight dist (remove1 e T)"
  using sum_list_map_remove1 [of e T "\<lambda>(u, v). dist ! u ! v"]
  by (simp add: routeWeight_def case_prod_unfold)

lemma prim_least:
  assumes "primState dist c used"
    and "\<forall>u \<in> set c. \<forall>v \<in> set c. dist ! u ! v = dist ! v ! u"
    and "\<forall>e \<in> set T. fst e \<in> set c \<and> snd e \<in> set c"
    and "set c \<subseteq> reachable T (set used)"
    and "length T + length used = length c"
  shows "routeWeight dist (primLoop dist c used []) \<le> routeWeight dist T"
  using assms
proof (induction "length c - length used" arbitrary: used T rule: less_induct)
  case less
  note sym = less.prems(2)
  show ?case
  proof (cases "length used < length c")
    case False
    from primState_full [OF less.prems(1) False] less.prems(5) have "T = []" by simp
    with primLoop_done [OF False, of dist] show ?thesis by simp
  next
    case True
    from primState_pick [OF less.prems(1) True] obtain a b where
      p: "fst (primPick dist c used) = Some (a, b)" and a: "a \<in> set used" and b: "b \<in> set c"
      and bn: "b \<notin> set used"
      and least: "\<forall>u' \<in> set used. \<forall>v' \<in> set c. v' \<notin> set used \<longrightarrow> dist ! a ! b \<le> dist ! u' ! v'"
      and st: "primState dist c (used @ [b])" by blast
    have R: "primLoop dist c used [] = (a, b) # primLoop dist c (used @ [b]) []"
      by (rule primLoop_step [OF True p])
    from less.prems(4) b have "b \<in> reachable T (set used)" by auto
    from cut_edge [OF this bn] obtain e x y where
      e: "e \<in> set T" and ex: "e = (x, y) \<or> e = (y, x)" and x: "x \<in> set used" and y: "y \<notin> set used"
      and breach: "b \<in> reachable (remove1 e T) {y}" by blast
    from less.prems(3) e ex have yc: "y \<in> set c" and xc: "x \<in> set c" by auto
    have w: "dist ! a ! b \<le> dist ! fst e ! snd e"
    proof -
      from least x yc y have "dist ! a ! b \<le> dist ! x ! y" by blast
      moreover from sym xc yc have "dist ! x ! y = dist ! y ! x" by blast
      ultimately show ?thesis using ex by auto
    qed
    let ?T' = "remove1 e T"
    have t3: "\<forall>e \<in> set ?T'. fst e \<in> set c \<and> snd e \<in> set c"
      using less.prems(3) by (meson notin_set_remove1)
    have t4: "set c \<subseteq> reachable ?T' (set (used @ [b]))"
    proof
      fix z assume "z \<in> set c"
      with less.prems(4) have "z \<in> reachable T (set used)" by auto
      from exchange_keeps [OF ex x breach this] show "z \<in> reachable ?T' (set (used @ [b]))" by simp
    qed
    have t5: "length ?T' + length (used @ [b]) = length c"
    proof -
      have "Suc (length ?T') = length T"
        using length_pos_if_in_set [OF e] e by (simp add: length_remove1)
      with less.prems(5) show ?thesis by simp
    qed
    have m: "length c - length (used @ [b]) < length c - length used" using True by simp
    from less.hyps [OF m st sym t3 t4 t5]
    have "routeWeight dist (primLoop dist c (used @ [b]) []) \<le> routeWeight dist ?T'" .
    with w routeWeight_remove1 [OF e, of dist] R show ?thesis
      by (simp add: routeWeight_Cons)
  qed
qed

text \<open>
  Prim's loop on a cluster of \<open>k\<close> distinct exits whose pairwise distances are below
  the sentinel, in a symmetric matrix: \<open>k - 1\<close> tree edges (none for \<open>k \<le> 1\<close>) that
  form a spanning tree of the members, of the least weight that a spanning tree of the
  members has under the same matrix.
\<close>

lemma prim_minimum_spanning_tree:
  assumes "distinct c"
    and "\<forall>u \<in> set c. \<forall>v \<in> set c. u \<noteq> v \<longrightarrow> dist ! u ! v < 1000000000"
    and "\<forall>u \<in> set c. \<forall>v \<in> set c. dist ! u ! v = dist ! v ! u"
  shows "length (treeEdges dist c) = length c - 1
     \<and> spanningTree c (treeEdges dist c)
     \<and> (\<forall>T. spanningTree c T \<longrightarrow> routeWeight dist (treeEdges dist c) \<le> routeWeight dist T)"
proof (cases c)
  case Nil
  then show ?thesis by (simp add: treeEdges_def spanningTree_def)
next
  case (Cons c0 rest)
  let ?R = "primLoop dist c [c0] []"
  have R: "treeEdges dist c = ?R" using Cons by (simp add: treeEdges_def)
  have st: "primState dist c [c0]" using assms(1,2) Cons by (simp add: primState_def)
  from prim_tree [OF st]
  have len: "length ?R = length c - 1"
    and ed: "\<forall>e \<in> set ?R. fst e \<in> set c \<and> snd e \<in> set c"
    and re: "set c \<subseteq> reachable ?R {c0}" by simp_all
  have conn: "v \<in> reachable ?R {u}" if "u \<in> set c" "v \<in> set c" for u v
  proof -
    from re that have "u \<in> reachable ?R {c0}" "v \<in> reachable ?R {c0}" by auto
    from reachable_sym [OF this(1)] have "{c0} \<subseteq> reachable ?R {u}" by simp
    with \<open>v \<in> reachable ?R {c0}\<close> show ?thesis by (rule reachable_trans)
  qed
  have tree: "spanningTree c ?R" using len ed conn by (simp add: spanningTree_def)
  have least: "routeWeight dist ?R \<le> routeWeight dist T" if "spanningTree c T" for T
  proof -
    from that have t3: "\<forall>e \<in> set T. fst e \<in> set c \<and> snd e \<in> set c"
      and tl: "length T = length c - 1"
      and tc: "\<forall>u \<in> set c. \<forall>v \<in> set c. v \<in> reachable T {u}"
      by (simp_all add: spanningTree_def)
    have t4: "set c \<subseteq> reachable T (set [c0])" using tc Cons by auto
    have t5: "length T + length [c0] = length c" using tl Cons by simp
    from prim_least [OF st assms(3) t3 t4 t5] show ?thesis .
  qed
  from len tree least R show ?thesis by simp
qed

section \<open>Warnings for an empty valid set\<close>

lemma shopScan_total:
  "\<forall>k \<in> set ks. g (fst k) (snd k) \<noteq> None \<Longrightarrow> \<exists>cs. getLikelyShopEntranceCoords isStall g ks = Inr cs"
proof (induction ks)
  case Nil
  show ?case by simp
next
  case (Cons k ks)
  obtain x y where k: "k = (x, y)" by (cases k) auto
  from Cons.prems k obtain els where els: "g x y = Some els" by auto
  from Cons.IH Cons.prems obtain cs where "getLikelyShopEntranceCoords isStall g ks = Inr cs" by auto
  with els k show ?case by simp
qed

lemma growCourt_no_valid: "validNodeIds p = [] \<Longrightarrow> growCourt p S c st = st"
  by (cases st) (auto simp: growCourt_def split: option.splits)

lemma growCourts_no_valid: "validNodeIds p = [] \<Longrightarrow> fold (growCourt p S) cs st = st"
  by (induction cs) (simp_all add: growCourt_no_valid)

lemma detectFoodCourts_no_valid: "validNodeIds p = [] \<Longrightarrow> detectFoodCourts p S shops = ([], [])"
  by (simp add: detectFoodCourts_def growCourts_def growCourts_no_valid)

lemma foodCourtPhase_no_valid:
  assumes "\<forall>k \<in> set (grid (mapW E) (mapH E)). getTileOf E (fst k) (snd k) \<noteq> None"
    and "validNodeIds p = []"
  shows "foodCourtPhase E S p = Inr ([], [])"
proof (cases "enableFoodCourts S")
  case False
  then show ?thesis by (simp add: foodCourtPhase_def)
next
  case True
  from shopScan_total [OF assms(1), of "isStallRide E"] obtain cs where
    "getLikelyShopEntranceCoords (isStallRide E) (getTileOf E) (grid (mapW E) (mapH E)) = Inr cs"
    by blast
  with True assms(2) show ?thesis
    by (simp add: foodCourtPhase_def detectFoodCourts_no_valid)
qed

lemma scanExits_no_valid:
  "validNodeIds p = [] \<Longrightarrow> \<forall>k \<in> set ks. g (fst k) (snd k) \<noteq> None \<Longrightarrow> scanExits p g ks = Inr []"
proof (induction ks)
  case Nil
  show ?case by simp
next
  case (Cons k ks)
  obtain x y where k: "k = (x, y)" by (cases k) auto
  from Cons.prems k obtain els where els: "g x y = Some els" by auto
  have "tileExits p (x, y) els = []" using Cons.prems(1) by (simp add: tileExits_def split: option.splits)
  moreover have "scanExits p g ks = Inr []" using Cons by simp
  ultimately show ?case using els k by simp
qed

lemma mechanicPhase_no_valid:
  assumes "\<forall>k \<in> set (grid (mapW E) (mapH E)). getTileOf E (fst k) (snd k) \<noteq> None"
    and "validNodeIds p = []"
  shows "mechanicPhase E S p = Some (Inr ([], []))"
  using scanExits_no_valid [OF assms(2) assms(1)]
  by (simp add: mechanicPhase_def buildMechanicRoutes_def distMatrix_def)

lemma buildHandymanZones_no_valid:
  "validNodeIds p = [] \<Longrightarrow> buildHandymanZones p S courts reserved available r = []"
  by (simp add: buildHandymanZones_def candidateTiles_def)

lemma prune_validPathTiles:
  "validPathTiles (pruneSceneryBranches built) = length (validNodeIds (pruneSceneryBranches built))"
  by (simp add: pruneSceneryBranches_def Let_def)

text \<open>
  C8 (amended). When pruning leaves no valid node and handyman or mechanic patrols are
  switched on (both are by default), the preview ends with a plan whose warnings list
  is not empty.
\<close>

theorem empty_valid_set_warns:
  assumes "\<forall>k \<in> set (grid (mapW E) (mapH E)). getTileOf E (fst k) (snd k) \<noteq> None"
    and "buildPathGraph S (mapW E) (mapH E) (getTileOf E) = Inr built"
    and "validNodeIds (pruneSceneryBranches built) = []"
    and "enableHandymen S \<or> enableMechanics S"
  shows "\<exists>pv. onPreview E S = Some (Inr pv) \<and> pv_plan pv = pruneSceneryBranches built
     \<and> pv_handymanZones pv = [] \<and> pv_mechClusters pv = [] \<and> pv_warnings pv \<noteq> []"
proof -
  let ?p = "pruneSceneryBranches built"
  have v: "validPathTiles ?p = 0" using assms(3) by (simp add: prune_validPathTiles)
  have w: "snd (computeKpis S 0 [] [] []) \<noteq> []"
    using assms(4)
    by (auto simp: computeKpis_def Let_def coverageWarnings_def mechWarnings_def)
  obtain k ws where c: "computeKpis S 0 [] [] [] = (k, ws)" by (cases "computeKpis S 0 [] [] []") auto
  with w have "ws \<noteq> []" by simp
  then show ?thesis
    using assms(2) foodCourtPhase_no_valid [OF assms(1,3), of S]
      mechanicPhase_no_valid [OF assms(1,3), of S] buildHandymanZones_no_valid [OF assms(3)] v c
    by (simp add: onPreview_def Let_def)
qed

theorem empty_valid_set_warns_witness:
  "list_all (\<lambda>k. getTileOf barrenEnv (fst k) (snd k) \<noteq> None) (grid (mapW barrenEnv) (mapH barrenEnv))
   \<and> buildPathGraph defaultSettings (mapW barrenEnv) (mapH barrenEnv) (getTileOf barrenEnv) = Inr barrenBuilt
   \<and> validNodeIds (pruneSceneryBranches barrenBuilt) = []
   \<and> (enableHandymen defaultSettings \<or> enableMechanics defaultSettings)
   \<and> (\<exists>pv. onPreview barrenEnv defaultSettings = Some (Inr pv) \<and> pv_warnings pv \<noteq> [])"
proof -
  have a: "\<forall>k \<in> set (grid (mapW barrenEnv) (mapH barrenEnv)). getTileOf barrenEnv (fst k) (snd k) \<noteq> None"
    by (simp add: barrenEnv_def)
  have "\<exists>p. buildPathGraph defaultSettings (mapW barrenEnv) (mapH barrenEnv) (getTileOf barrenEnv) = Inr p"
    by (rule buildPathGraph_returns) (simp add: defaultSettings_def)
  then have b: "buildPathGraph defaultSettings (mapW barrenEnv) (mapH barrenEnv) (getTileOf barrenEnv) = Inr barrenBuilt"
    by (auto simp: barrenBuilt_def)
  have c: "validNodeIds (pruneSceneryBranches barrenBuilt) = []" by code_simp
  have d: "enableHandymen defaultSettings \<or> enableMechanics defaultSettings"
    by (simp add: defaultSettings_def)
  from empty_valid_set_warns [OF a b c d] a b c d show ?thesis
    unfolding list_all_iff by blast
qed

text \<open>
  C8 (as stated, refuted). On a map of one path tile without rides, with handyman and
  mechanic patrols both switched off, pruning leaves no valid node and the preview
  ends with an empty warnings list.
\<close>

theorem empty_valid_set_without_warning:
  "map_option (map_sum id (validNodeIds \<circ> pv_plan)) (onPreview barrenEnv quietSettings) = Some (Inr [])
   \<and> map_option (map_sum id pv_warnings) (onPreview barrenEnv quietSettings) = Some (Inr [])"
  by code_simp

section \<open>Node ids stay within the graph\<close>

text \<open>
  In a plan made by \<open>buildPathGraph\<close> and pruned, the arrays \<open>nodes\<close> and \<open>edges\<close>
  have one entry for each node, and every id of the valid set, of an adjacency list and
  of a handyman zone is the index of a node. So the reads \<open>Plan.nodes[id]\<close> and
  \<open>Plan.edges[id]\<close> of the passes that follow are reads of entries that exist.
\<close>

lemma pruneLoop_subset: "set (pruneLoop es A valid deg q) \<subseteq> set valid"
proof (induction es A valid deg q rule: pruneLoop.induct)
  case (1 es A valid deg)
  show ?case by simp
next
  case (2 es A valid deg v q)
  show ?case
  proof (cases "v \<notin> set valid \<or> adjacentToAttractor es A v")
    case True
    with "2.IH"(1,2) show ?thesis by auto
  next
    case False
    obtain deg' q' where f: "fold (relax es A (set_delete v valid)) (es ! v) (deg, q) = (deg', q')"
      by (cases "fold (relax es A (set_delete v valid)) (es ! v) (deg, q)") auto
    from False have a: "\<not> v \<notin> set valid" "\<not> adjacentToAttractor es A v" by auto
    from "2.IH"(3) [OF a f [symmetric]]
    have "set (pruneLoop es A (set_delete v valid) deg' q') \<subseteq> set (set_delete v valid)" .
    also have "\<dots> \<subseteq> set valid" by (auto simp: set_delete_def)
    finally show ?thesis using False f by simp
  qed
qed

lemma pruned_in_range:
  assumes "buildPathGraph S w h g = Inr built"
  shows "length (edges (pruneSceneryBranches built)) = length (nodes (pruneSceneryBranches built))"
    and "graphOk (edges (pruneSceneryBranches built))"
    and "\<forall>v \<in> set (validNodeIds (pruneSceneryBranches built)). v < length (nodes (pruneSceneryBranches built))"
proof -
  have l: "length (edges built) = length (nodes built)" and vs: "validNodeIds built = [0..<length (nodes built)]"
    using built_lengths [OF assms] by simp_all
  show "length (edges (pruneSceneryBranches built)) = length (nodes (pruneSceneryBranches built))"
    using l by (simp add: pruneSceneryBranches_def Let_def)
  show "graphOk (edges (pruneSceneryBranches built))"
    using built_graphOk [OF assms] by (simp add: pruneSceneryBranches_def Let_def)
  show "\<forall>v \<in> set (validNodeIds (pruneSceneryBranches built)). v < length (nodes (pruneSceneryBranches built))"
  proof
    fix v assume "v \<in> set (validNodeIds (pruneSceneryBranches built))"
    then have "v \<in> set (validNodeIds built)"
      by (auto simp: pruneSceneryBranches_def Let_def dest: subsetD [OF pruneLoop_subset])
    then show "v < length (nodes (pruneSceneryBranches built))"
      using vs by (simp add: pruneSceneryBranches_def Let_def)
  qed
qed

lemma courtZone_tiles:
  "fold (courtZone p) courts (zones, valid) = (zones', valid') \<Longrightarrow>
   \<forall>z \<in> set zones. set (tiles z) \<subseteq> set (validNodeIds p) \<Longrightarrow>
   \<forall>z \<in> set zones'. set (tiles z) \<subseteq> set (validNodeIds p)"
proof (induction courts arbitrary: zones valid)
  case Nil
  then show ?case by simp
next
  case (Cons c courts)
  obtain z1 v1 where s: "courtZone p c (zones, valid) = (z1, v1)"
    by (cases "courtZone p c (zones, valid)") auto
  have "\<forall>z \<in> set z1. set (tiles z) \<subseteq> set (validNodeIds p)"
    using s Cons.prems(2) by (auto simp: courtZone_def Let_def set_fold_set_add split: if_splits)
  moreover from Cons.prems(1) s have "fold (courtZone p) courts (z1, v1) = (zones', valid')" by simp
  ultimately show ?case by (rule Cons.IH [rotated])
qed

lemma pushGrown_tiles:
  "\<forall>z \<in> set zones. set (tiles z) \<subseteq> V \<Longrightarrow> \<forall>ts \<in> set grown. set ts \<subseteq> V \<Longrightarrow>
   \<forall>z \<in> set (fold (pushGrown p) grown zones). set (tiles z) \<subseteq> V"
proof (induction grown arbitrary: zones)
  case Nil
  then show ?case by simp
next
  case (Cons ts grown)
  have "\<forall>z \<in> set (pushGrown p ts zones). set (tiles z) \<subseteq> V"
    using Cons.prems by (auto simp: pushGrown_def)
  with Cons.IH [of "pushGrown p ts zones"] Cons.prems(2) show ?case by simp
qed

lemma zones_in_range:
  assumes "buildPathGraph S0 w h g = Inr built" and "p = pruneSceneryBranches built"
    and "z \<in> set (fold (pushGrown p) (grownZones p S courts reserved available r)
                    (fst (handymanPool p S courts reserved)))"
    and "t \<in> set (tiles z)"
  shows "t \<in> set (validNodeIds p) \<and> t < length (edges p) \<and> t < length (nodes p)"
proof -
  have a: "\<forall>z \<in> set (fst (handymanPool p S courts reserved)). set (tiles z) \<subseteq> set (validNodeIds p)"
  proof (cases "enableFoodCourts S \<and> courts \<noteq> []")
    case True
    obtain z0 v0 where f: "fold (courtZone p) courts ([], candidateTiles p reserved) = (z0, v0)"
      by (cases "fold (courtZone p) courts ([], candidateTiles p reserved)") auto
    from courtZone_tiles [OF f] have "\<forall>z \<in> set z0. set (tiles z) \<subseteq> set (validNodeIds p)" by simp
    with True f show ?thesis by (simp add: handymanPool_def)
  next
    case False
    then show ?thesis by (auto simp: handymanPool_def)
  qed
  have b: "\<forall>ts \<in> set (grownZones p S courts reserved available r). set ts \<subseteq> set (validNodeIds p)"
    using grownZones_subset [of _ p S courts reserved available r] by blast
  from pushGrown_tiles [OF a b, of p] assms(3,4) have v: "t \<in> set (validNodeIds p)" by blast
  with pruned_in_range [OF assms(1)] assms(2) show ?thesis by simp
qed

section \<open>Breadth-first distances\<close>

text \<open>
  A walk of \<open>k\<close> steps from \<open>a\<close>: every step follows an edge to a valid node, as the
  search does.
\<close>

inductive walk :: "plan \<Rightarrow> nat \<Rightarrow> nat \<Rightarrow> int \<Rightarrow> bool" for p :: plan and a :: nat where
  start: "walk p a a 0"
| step: "walk p a u k \<Longrightarrow> v \<in> set (edges p ! u) \<Longrightarrow> v \<in> set (validNodeIds p) \<Longrightarrow> walk p a v (k + 1)"

lemma walk_nonneg: "walk p a v k \<Longrightarrow> 0 \<le> k"
  by (induction rule: walk.induct) auto

lemma walk_trans: "walk p b c m \<Longrightarrow> walk p a b k \<Longrightarrow> walk p a c (k + m)"
proof (induction rule: walk.induct)
  case start
  then show ?case by simp
next
  case (step u m v)
  from step.IH [OF step.prems] have "walk p a u (k + m)" .
  from walk.step [OF this step.hyps(2,3)] show ?case by (simp add: add.assoc)
qed

lemma walk_valid:
  "walk p a v k \<Longrightarrow> a \<in> set (validNodeIds p) \<Longrightarrow> v \<in> set (validNodeIds p)"
  by (induction rule: walk.induct) auto

lemma walk_range:
  "walk p a v k \<Longrightarrow> graphOk (edges p) \<Longrightarrow> a < length (edges p) \<Longrightarrow> v < length (edges p)"
proof (induction rule: walk.induct)
  case start
  then show ?case by simp
next
  case (step u k v)
  from step.IH [OF step.prems] have "u < length (edges p)" .
  from graphOk_range [OF step.prems(1) this step.hyps(2)] show ?case .
qed

lemma walk_rev:
  assumes "walk p a v k" and "graphOk (edges p)" and "a < length (edges p)"
    and "a \<in> set (validNodeIds p)"
  shows "walk p v a k"
  using assms
proof (induction rule: walk.induct)
  case start
  show ?case by (rule walk.start)
next
  case (step u k v)
  from step.IH [OF step.prems] have ua: "walk p u a k" .
  have ur: "u < length (edges p)" by (rule walk_range [OF step.hyps(1) step.prems(1,2)])
  have uv: "u \<in> set (validNodeIds p)" by (rule walk_valid [OF step.hyps(1) step.prems(3)])
  from graphOk_sym [OF step.prems(1) ur step.hyps(2)] have "u \<in> set (edges p ! v)" .
  from walk.step [OF walk.start this uv] have "walk p v u 1" by simp
  from walk_trans [OF ua this] show ?case by (simp add: add.commute)
qed

text \<open>One neighbour of the node \<open>x\<close> that the search has taken from the queue.\<close>

lemma bfsVisit_cases:
  assumes "bfsVisit p x nb (dist, prev, q) = (d1, p1, q1)"
  shows "((nb \<notin> set (validNodeIds p) \<or> dist nb \<noteq> None) \<and> d1 = dist \<and> p1 = prev \<and> q1 = q)
     \<or> (nb \<in> set (validNodeIds p) \<and> dist nb = None \<and> d1 = dist(nb \<mapsto> the (dist x) + 1)
        \<and> p1 = prev(nb \<mapsto> x) \<and> q1 = q @ [nb])"
  using assms by (auto simp: bfsVisit_def split: if_splits)

definition visitRel :: "plan \<Rightarrow> nat \<Rightarrow> int \<Rightarrow> nat list \<Rightarrow> (nat \<rightharpoonup> int) \<times> (nat \<rightharpoonup> nat) \<times> nat list
    \<Rightarrow> (nat \<rightharpoonup> int) \<times> (nat \<rightharpoonup> nat) \<times> nat list \<Rightarrow> bool" where
  "visitRel p x dx nbs st st' =
     (case (st, st') of ((dist, prev, q), (dist', prev', q')) \<Rightarrow>
        (\<forall>v. dist v \<noteq> None \<longrightarrow> dist' v = dist v \<and> prev' v = prev v)
      \<and> (\<forall>v. dist v = None \<longrightarrow> (dist' v = None \<and> prev' v = prev v)
             \<or> (dist' v = Some (dx + 1) \<and> prev' v = Some x \<and> v \<in> set nbs
                \<and> v \<in> set (validNodeIds p) \<and> v \<in> set q'))
      \<and> (\<forall>v \<in> set nbs. v \<in> set (validNodeIds p) \<longrightarrow> dist' v \<noteq> None)
      \<and> (\<exists>news. q' = q @ news \<and> (\<forall>v \<in> set news. dist v = None \<and> dist' v \<noteq> None)))"

lemma bfsVisit_fold_visited:
  assumes "fold (bfsVisit p x) nbs (dist, prev, q) = (dist', prev', q')" and "dist x = Some dx"
  shows "visitRel p x dx nbs (dist, prev, q) (dist', prev', q')"
  using assms
proof (induction nbs arbitrary: dist prev q)
  case Nil
  then show ?case by (simp add: visitRel_def)
next
  case (Cons nb nbs)
  obtain d1 p1 q1 where s: "bfsVisit p x nb (dist, prev, q) = (d1, p1, q1)"
    by (cases "bfsVisit p x nb (dist, prev, q)") auto
  with Cons.prems have f: "fold (bfsVisit p x) nbs (d1, p1, q1) = (dist', prev', q')" by simp
  from bfsVisit_keeps [OF s Cons.prems(2)] have x1: "d1 x = Some dx" .
  from Cons.IH [OF f x1] have ih: "visitRel p x dx nbs (d1, p1, q1) (dist', prev', q')" .
  from bfsVisit_cases [OF s] show ?case
  proof
    assume a: "(nb \<notin> set (validNodeIds p) \<or> dist nb \<noteq> None) \<and> d1 = dist \<and> p1 = prev \<and> q1 = q"
    then have e: "d1 = dist" "p1 = prev" "q1 = q" by simp_all
    from ih e obtain news where
      k1: "\<forall>v. dist v \<noteq> None \<longrightarrow> dist' v = dist v \<and> prev' v = prev v"
      and k2: "\<forall>v. dist v = None \<longrightarrow> (dist' v = None \<and> prev' v = prev v)
             \<or> (dist' v = Some (dx + 1) \<and> prev' v = Some x \<and> v \<in> set nbs
                \<and> v \<in> set (validNodeIds p) \<and> v \<in> set q')"
      and k3: "\<forall>v \<in> set nbs. v \<in> set (validNodeIds p) \<longrightarrow> dist' v \<noteq> None"
      and k4: "q' = q @ news" "\<forall>v \<in> set news. dist v = None \<and> dist' v \<noteq> None"
      unfolding visitRel_def by auto
    have c2: "\<forall>v. dist v = None \<longrightarrow> (dist' v = None \<and> prev' v = prev v)
             \<or> (dist' v = Some (dx + 1) \<and> prev' v = Some x \<and> v \<in> set (nb # nbs)
                \<and> v \<in> set (validNodeIds p) \<and> v \<in> set q')"
    proof (intro allI impI)
      fix v assume "dist v = None"
      with k2 have "(dist' v = None \<and> prev' v = prev v)
             \<or> (dist' v = Some (dx + 1) \<and> prev' v = Some x \<and> v \<in> set nbs
                \<and> v \<in> set (validNodeIds p) \<and> v \<in> set q')" by blast
      then show "(dist' v = None \<and> prev' v = prev v)
             \<or> (dist' v = Some (dx + 1) \<and> prev' v = Some x \<and> v \<in> set (nb # nbs)
                \<and> v \<in> set (validNodeIds p) \<and> v \<in> set q')" by (elim disjE) simp_all
    qed
    have "dist' nb \<noteq> None" if "nb \<in> set (validNodeIds p)"
    proof -
      from a that have "dist nb \<noteq> None" by simp
      with k1 show ?thesis by simp
    qed
    with k3 have c3: "\<forall>v \<in> set (nb # nbs). v \<in> set (validNodeIds p) \<longrightarrow> dist' v \<noteq> None"
      by simp
    have c4: "\<exists>news. q' = q @ news \<and> (\<forall>v \<in> set news. dist v = None \<and> dist' v \<noteq> None)"
      using k4 by blast
    from k1 c2 c3 c4 show ?thesis unfolding visitRel_def by simp
  next
    assume b: "nb \<in> set (validNodeIds p) \<and> dist nb = None \<and> d1 = dist(nb \<mapsto> the (dist x) + 1)
        \<and> p1 = prev(nb \<mapsto> x) \<and> q1 = q @ [nb]"
    then have e: "d1 = dist(nb \<mapsto> dx + 1)" "p1 = prev(nb \<mapsto> x)" "q1 = q @ [nb]"
      and nv: "nb \<in> set (validNodeIds p)" and nn: "dist nb = None"
      using Cons.prems(2) by simp_all
    from ih obtain news where
      k1: "\<forall>v. d1 v \<noteq> None \<longrightarrow> dist' v = d1 v \<and> prev' v = p1 v"
      and k2: "\<forall>v. d1 v = None \<longrightarrow> (dist' v = None \<and> prev' v = p1 v)
             \<or> (dist' v = Some (dx + 1) \<and> prev' v = Some x \<and> v \<in> set nbs
                \<and> v \<in> set (validNodeIds p) \<and> v \<in> set q')"
      and k3: "\<forall>v \<in> set nbs. v \<in> set (validNodeIds p) \<longrightarrow> dist' v \<noteq> None"
      and k4: "q' = q1 @ news" "\<forall>v \<in> set news. d1 v = None \<and> dist' v \<noteq> None"
      unfolding visitRel_def by auto
    have nb': "dist' nb = Some (dx + 1)" "prev' nb = Some x" "nb \<in> set q'"
      using k1 e k4(1) by simp_all
    have c1: "\<forall>v. dist v \<noteq> None \<longrightarrow> dist' v = dist v \<and> prev' v = prev v"
    proof (intro allI impI)
      fix v assume "dist v \<noteq> None"
      with nn have "v \<noteq> nb" by auto
      with \<open>dist v \<noteq> None\<close> k1 e show "dist' v = dist v \<and> prev' v = prev v" by simp
    qed
    have c2: "\<forall>v. dist v = None \<longrightarrow> (dist' v = None \<and> prev' v = prev v)
             \<or> (dist' v = Some (dx + 1) \<and> prev' v = Some x \<and> v \<in> set (nb # nbs)
                \<and> v \<in> set (validNodeIds p) \<and> v \<in> set q')"
    proof (intro allI impI)
      fix v assume vn: "dist v = None"
      show "(dist' v = None \<and> prev' v = prev v)
             \<or> (dist' v = Some (dx + 1) \<and> prev' v = Some x \<and> v \<in> set (nb # nbs)
                \<and> v \<in> set (validNodeIds p) \<and> v \<in> set q')"
      proof (cases "v = nb")
        case True
        with nb' nv show ?thesis by simp
      next
        case False
        with vn e have dn: "d1 v = None" and pp: "p1 v = prev v" by simp_all
        from k2 dn have "(dist' v = None \<and> prev' v = p1 v)
             \<or> (dist' v = Some (dx + 1) \<and> prev' v = Some x \<and> v \<in> set nbs
                \<and> v \<in> set (validNodeIds p) \<and> v \<in> set q')" by blast
        with pp show ?thesis by (elim disjE) simp_all
      qed
    qed
    have c3: "\<forall>v \<in> set (nb # nbs). v \<in> set (validNodeIds p) \<longrightarrow> dist' v \<noteq> None"
      using k3 nb' by auto
    have c4: "\<exists>news. q' = q @ news \<and> (\<forall>v \<in> set news. dist v = None \<and> dist' v \<noteq> None)"
    proof (intro exI conjI)
      show "q' = q @ (nb # news)" using k4(1) e by simp
      show "\<forall>v \<in> set (nb # news). dist v = None \<and> dist' v \<noteq> None"
      proof
        fix v assume "v \<in> set (nb # news)"
        then show "dist v = None \<and> dist' v \<noteq> None"
        proof (cases "v = nb")
          case True
          with nn nb' show ?thesis by simp
        next
          case False
          with \<open>v \<in> set (nb # news)\<close> have "v \<in> set news" by simp
          with k4(2) have "d1 v = None" "dist' v \<noteq> None" by auto
          with e False show ?thesis by (auto split: if_splits)
        qed
      qed
    qed
    from c1 c2 c3 c4 show ?thesis unfolding visitRel_def by simp
  qed
qed

text \<open>
  The invariant of the search loop: distances are lengths of walks, the queue is
  ordered by distance and spans at most two levels, every node that has left the queue
  has all its valid neighbours discovered, and \<open>prev\<close> leads one level down.
\<close>

definition bfsInv :: "plan \<Rightarrow> nat \<Rightarrow> (nat \<rightharpoonup> int) \<Rightarrow> (nat \<rightharpoonup> nat) \<Rightarrow> nat list \<Rightarrow> bool" where
  "bfsInv p a dist prev q =
     (dist a = Some 0
      \<and> (\<forall>v d. dist v = Some d \<longrightarrow> walk p a v d)
      \<and> (\<forall>v \<in> set q. dist v \<noteq> None)
      \<and> sorted_wrt (\<lambda>u v. the (dist u) \<le> the (dist v)) q
      \<and> (\<forall>w d. q \<noteq> [] \<and> dist w = Some d \<longrightarrow> d \<le> the (dist (hd q)) + 1)
      \<and> (\<forall>u d. dist u = Some d \<and> u \<notin> set q \<longrightarrow>
           (\<forall>w \<in> set (edges p ! u). w \<in> set (validNodeIds p) \<longrightarrow> (\<exists>d'. dist w = Some d' \<and> d' \<le> d + 1)))
      \<and> (\<forall>v u. prev v = Some u \<longrightarrow> (\<exists>d. dist u = Some d \<and> dist v = Some (d + 1))))"

lemma bfsInv_init: "bfsInv p a [a \<mapsto> 0] Map.empty [a]"
  by (auto simp: bfsInv_def intro: walk.start)

lemma bfsInv_step:
  assumes inv: "bfsInv p a dist prev (x # q)"
    and f: "fold (bfsVisit p x) (edges p ! x) (dist, prev, q) = (dist', prev', q')"
  shows "bfsInv p a dist' prev' q'"
proof -
  from inv have i1: "dist a = Some 0" by (simp add: bfsInv_def)
  from inv have i2: "\<forall>v d. dist v = Some d \<longrightarrow> walk p a v d" by (simp add: bfsInv_def)
  from inv have i3: "\<forall>v \<in> set (x # q). dist v \<noteq> None" by (simp add: bfsInv_def)
  from inv have i4: "sorted_wrt (\<lambda>u v. the (dist u) \<le> the (dist v)) (x # q)" by (simp add: bfsInv_def)
  from inv have i5: "\<forall>w d. dist w = Some d \<longrightarrow> d \<le> the (dist x) + 1" by (simp add: bfsInv_def)
  from inv have i6: "\<forall>u d. dist u = Some d \<and> u \<notin> set (x # q) \<longrightarrow>
           (\<forall>w \<in> set (edges p ! u). w \<in> set (validNodeIds p) \<longrightarrow> (\<exists>d'. dist w = Some d' \<and> d' \<le> d + 1))"
    unfolding bfsInv_def by blast
  from inv have i7: "\<forall>v u. prev v = Some u \<longrightarrow> (\<exists>d. dist u = Some d \<and> dist v = Some (d + 1))"
    unfolding bfsInv_def by blast
  from i3 obtain dx where dx: "dist x = Some dx" by auto
  from bfsVisit_fold_visited [OF f dx] obtain news where
    k1: "\<forall>v. dist v \<noteq> None \<longrightarrow> dist' v = dist v \<and> prev' v = prev v"
    and k2: "\<forall>v. dist v = None \<longrightarrow> (dist' v = None \<and> prev' v = prev v)
             \<or> (dist' v = Some (dx + 1) \<and> prev' v = Some x \<and> v \<in> set (edges p ! x)
                \<and> v \<in> set (validNodeIds p) \<and> v \<in> set q')"
    and k3: "\<forall>v \<in> set (edges p ! x). v \<in> set (validNodeIds p) \<longrightarrow> dist' v \<noteq> None"
    and k4: "q' = q @ news" and k5: "\<forall>v \<in> set news. dist v = None \<and> dist' v \<noteq> None"
    unfolding visitRel_def by auto
  have old: "dist' v = Some d" if "dist v = Some d" for v d
    using k1 that by simp
  have new: "dist' v = Some (dx + 1) \<and> prev' v = Some x \<and> v \<in> set (edges p ! x)
      \<and> v \<in> set (validNodeIds p) \<and> v \<in> set q'" if "dist v = None" "dist' v \<noteq> None" for v
    using k2 [rule_format, OF that(1)] that(2) by simp
  have bound: "d \<le> dx + 1" if "dist' w = Some d" for w d
  proof (cases "dist w")
    case None
    with new [of w] that show ?thesis by simp
  next
    case (Some d0)
    with old [of w d0] that have "d0 = d" by simp
    with i5 Some dx show ?thesis by simp
  qed
  have c1: "dist' a = Some 0" using i1 by (rule old)
  have c2: "\<forall>v d. dist' v = Some d \<longrightarrow> walk p a v d"
  proof (intro allI impI)
    fix v d assume vd: "dist' v = Some d"
    show "walk p a v d"
    proof (cases "dist v")
      case None
      with new [of v] vd have "d = dx + 1" "v \<in> set (edges p ! x)" "v \<in> set (validNodeIds p)"
        by simp_all
      moreover from i2 dx have "walk p a x dx" by simp
      ultimately show ?thesis by (auto intro: walk.step)
    next
      case (Some d0)
      with old [of v d0] vd have "d0 = d" by simp
      with i2 Some show ?thesis by simp
    qed
  qed
  have inq: "dist v \<noteq> None" if "v \<in> set q" for v using i3 that by simp
  have c3: "\<forall>v \<in> set q'. dist' v \<noteq> None"
  proof
    fix v assume "v \<in> set q'"
    with k4 have "v \<in> set q \<or> v \<in> set news" by simp
    then show "dist' v \<noteq> None"
    proof
      assume "v \<in> set q"
      from inq [OF this] obtain d where "dist v = Some d" by auto
      from old [OF this] show ?thesis by simp
    next
      assume "v \<in> set news"
      with k5 show ?thesis by simp
    qed
  qed
  have qd: "the (dist' v) = the (dist v) \<and> dx \<le> the (dist v)" if "v \<in> set q" for v
  proof -
    from inq [OF that] obtain d where d: "dist v = Some d" by auto
    from i4 that have "the (dist x) \<le> the (dist v)" by simp
    with d dx old [OF d] show ?thesis by simp
  qed
  have nd: "the (dist' v) = dx + 1" if "v \<in> set news" for v
    using k5 that new [of v] by simp
  have c4: "sorted_wrt (\<lambda>u v. the (dist' u) \<le> the (dist' v)) q'"
  proof -
    from i4 have "sorted_wrt (\<lambda>u v. the (dist u) \<le> the (dist v)) q" by simp
    then have a: "sorted_wrt (\<lambda>u v. the (dist' u) \<le> the (dist' v)) q"
      by (rule sorted_wrt_mono_rel [rotated]) (simp add: qd)
    have b: "sorted_wrt (\<lambda>u v. the (dist' u) \<le> the (dist' v)) news"
      by (rule sorted_wrt_mono_rel [of news "\<lambda>u v. True"]) (simp_all add: nd)
    have c: "\<forall>u \<in> set q. \<forall>v \<in> set news. the (dist' u) \<le> the (dist' v)"
    proof (intro ballI)
      fix u v assume u: "u \<in> set q" and v: "v \<in> set news"
      from c3 u k4 obtain d where d: "dist' u = Some d" by auto
      from bound [OF d] d nd [OF v] show "the (dist' u) \<le> the (dist' v)" by simp
    qed
    from a b c show ?thesis unfolding k4 by (simp add: sorted_wrt_append)
  qed
  have c5: "\<forall>w d. q' \<noteq> [] \<and> dist' w = Some d \<longrightarrow> d \<le> the (dist' (hd q')) + 1"
  proof (intro allI impI)
    fix w d assume a: "q' \<noteq> [] \<and> dist' w = Some d"
    then have "hd q' \<in> set q'" by simp
    with k4 have "hd q' \<in> set q \<or> hd q' \<in> set news" by simp
    then have "dx \<le> the (dist' (hd q'))"
    proof
      assume "hd q' \<in> set q"
      from qd [OF this] show ?thesis by simp
    next
      assume "hd q' \<in> set news"
      from nd [OF this] show ?thesis by simp
    qed
    with bound [of w d] a show "d \<le> the (dist' (hd q')) + 1" by simp
  qed
  have c6: "\<forall>u d. dist' u = Some d \<and> u \<notin> set q' \<longrightarrow>
           (\<forall>w \<in> set (edges p ! u). w \<in> set (validNodeIds p) \<longrightarrow> (\<exists>d'. dist' w = Some d' \<and> d' \<le> d + 1))"
  proof (intro allI impI ballI)
    fix u d w
    assume a: "dist' u = Some d \<and> u \<notin> set q'" and w: "w \<in> set (edges p ! u)"
      and wv: "w \<in> set (validNodeIds p)"
    have du: "dist u = Some d"
    proof (cases "dist u")
      case None
      with new [of u] a show ?thesis by simp
    next
      case (Some d0)
      with old [of u d0] a show ?thesis by simp
    qed
    show "\<exists>d'. dist' w = Some d' \<and> d' \<le> d + 1"
    proof (cases "u = x")
      case True
      with k3 w wv obtain d' where d': "dist' w = Some d'" by auto
      from bound [OF d'] True du dx d' show ?thesis by simp
    next
      case False
      with a k4 have "u \<notin> set (x # q)" by simp
      with i6 du w wv obtain d' where "dist w = Some d'" "d' \<le> d + 1" by blast
      with old [of w d'] show ?thesis by simp
    qed
  qed
  have c7: "\<forall>v u. prev' v = Some u \<longrightarrow> (\<exists>d. dist' u = Some d \<and> dist' v = Some (d + 1))"
  proof (intro allI impI)
    fix v u assume pv: "prev' v = Some u"
    show "\<exists>d. dist' u = Some d \<and> dist' v = Some (d + 1)"
    proof (cases "prev' v = prev v")
      case True
      with pv i7 obtain d where "dist u = Some d" "dist v = Some (d + 1)" by auto
      with old [of u d] old [of v "d + 1"] show ?thesis by simp
    next
      case False
      with k1 have dn: "dist v = None" by auto
      with k2 [rule_format, OF dn] False have "dist' v = Some (dx + 1) \<and> prev' v = Some x" by simp
      with pv old [OF dx] show ?thesis by simp
    qed
  qed
  from c1 c2 c3 c4 c5 c6 c7 show ?thesis unfolding bfsInv_def by blast
qed

lemma bfsLoop_inv:
  "bfsInv p a dist prev q \<Longrightarrow> bfsInv p a (fst (bfsLoop p dist prev q)) (snd (bfsLoop p dist prev q)) []"
proof (induction p dist prev q rule: bfsLoop.induct)
  case (1 p dist prev)
  then show ?case by simp
next
  case (2 p dist prev v q)
  obtain d1 p1 q1 where s: "fold (bfsVisit p v) (edges p ! v) (dist, prev, q) = (d1, p1, q1)"
    by (cases "fold (bfsVisit p v) (edges p ! v) (dist, prev, q)") auto
  from bfsInv_step [OF "2.prems" s] have "bfsInv p a d1 p1 q1" .
  from "2.IH" [OF s [symmetric] refl this] s show ?case by simp
qed

lemma bfsDistances_inv:
  "bfsInv p a (fst (bfsDistances p a)) (snd (bfsDistances p a)) []"
  unfolding bfsDistances_def by (rule bfsLoop_inv) (rule bfsInv_init)

text \<open>What the search answers: the length of a shortest walk.\<close>

lemma bfs_sound: "fst (bfsDistances p a) v = Some d \<Longrightarrow> walk p a v d"
  using bfsDistances_inv [of p a] unfolding bfsInv_def by blast

lemma bfs_complete: "walk p a v k \<Longrightarrow> \<exists>d. fst (bfsDistances p a) v = Some d \<and> d \<le> k"
proof (induction rule: walk.induct)
  case start
  show ?case by (simp add: bfsDistances_start)
next
  case (step u k v)
  from step.IH obtain d where d: "fst (bfsDistances p a) u = Some d" "d \<le> k" by blast
  have "\<forall>u d. fst (bfsDistances p a) u = Some d \<and> u \<notin> set [] \<longrightarrow>
      (\<forall>w \<in> set (edges p ! u). w \<in> set (validNodeIds p) \<longrightarrow>
         (\<exists>d'. fst (bfsDistances p a) w = Some d' \<and> d' \<le> d + 1))"
    using bfsDistances_inv [of p a] unfolding bfsInv_def by blast
  from this [rule_format, of u d v] d(1) step.hyps(2,3)
  obtain d' where "fst (bfsDistances p a) v = Some d'" "d' \<le> d + 1"
    by auto
  with d(2) show ?case by auto
qed

lemma bfs_symmetric_le:
  assumes "graphOk (edges p)" and "a < length (edges p)" and "a \<in> set (validNodeIds p)"
    and "fst (bfsDistances p a) b = Some d"
  shows "\<exists>d'. fst (bfsDistances p b) a = Some d' \<and> d' \<le> d"
proof -
  from bfs_sound [OF assms(4)] have "walk p a b d" .
  from walk_rev [OF this assms(1,2,3)] have "walk p b a d" .
  then show ?thesis by (rule bfs_complete)
qed

lemma bfs_symmetric:
  assumes ok: "graphOk (edges p)"
    and a: "a < length (edges p)" "a \<in> set (validNodeIds p)"
    and b: "b < length (edges p)" "b \<in> set (validNodeIds p)"
  shows "fst (bfsDistances p a) b = fst (bfsDistances p b) a"
proof (cases "fst (bfsDistances p a) b")
  case None
  show ?thesis
  proof (cases "fst (bfsDistances p b) a")
    case n: None
    with None show ?thesis by simp
  next
    case (Some d)
    from bfs_symmetric_le [OF ok b Some] None show ?thesis by simp
  qed
next
  case (Some d)
  from bfs_symmetric_le [OF ok a Some] obtain d' where
    d': "fst (bfsDistances p b) a = Some d'" "d' \<le> d" by blast
  from bfs_symmetric_le [OF ok b d'(1)] Some have "d \<le> d'" by simp
  with d' Some show ?thesis by simp
qed

text \<open>The exits stand on valid nodes, so the distance matrix is symmetric.\<close>

lemma scanExits_valid:
  "scanExits p g ks = Inr exits \<Longrightarrow> \<forall>e \<in> set exits. ex_nodeId e \<in> set (validNodeIds p)"
proof (induction ks arbitrary: exits)
  case Nil
  then show ?case by simp
next
  case (Cons k ks)
  obtain x y where k: "k = (x, y)" by (cases k)
  from Cons.prems k obtain els rest where
    t: "g x y = Some els" and r: "scanExits p g ks = Inr rest"
    and e: "exits = tileExits p (x, y) els @ rest"
    by (auto split: option.splits sum.splits)
  have "\<forall>e \<in> set (tileExits p (x, y) els). ex_nodeId e \<in> set (validNodeIds p)"
    by (auto simp: tileExits_def split: option.splits if_splits)
  with Cons.IH [OF r] e show ?case by auto
qed

lemma distMatrix_nth:
  "i < length exits \<Longrightarrow> j < length exits \<Longrightarrow>
   distMatrix p exits ! i ! j
     = orSentinel (fst (bfsDistances p (ex_nodeId (exits ! i))) (ex_nodeId (exits ! j)))"
  by (simp add: distMatrix_def)

lemma distMatrix_symmetric:
  assumes "graphOk (edges p)" and "\<forall>v \<in> set (validNodeIds p). v < length (edges p)"
    and "\<forall>e \<in> set exits. ex_nodeId e \<in> set (validNodeIds p)"
    and "i < length exits" and "j < length exits"
  shows "distMatrix p exits ! i ! j = distMatrix p exits ! j ! i"
proof -
  let ?a = "ex_nodeId (exits ! i)" and ?b = "ex_nodeId (exits ! j)"
  from assms(3,4,5) have v: "?a \<in> set (validNodeIds p)" "?b \<in> set (validNodeIds p)" by simp_all
  with assms(2) have r: "?a < length (edges p)" "?b < length (edges p)" by simp_all
  from bfs_symmetric [OF assms(1) r(1) v(1) r(2) v(2)] assms(4,5) show ?thesis
    by (simp add: distMatrix_nth)
qed

text \<open>
  The walk back along \<open>prev\<close> ends: every link leads to a node one level nearer to the
  start, and levels are not negative.
\<close>

lemma walkBack_returns:
  assumes "\<forall>v u. prev v = Some u \<longrightarrow> (\<exists>d. dist u = Some d \<and> dist v = Some (d + 1))"
    and "\<forall>v d. dist v = Some d \<longrightarrow> (0::int) \<le> d"
    and "dist cur = Some d"
  shows "\<exists>r. walkBack prev a cur path = Some r"
  using assms(3)
proof (induction "nat d" arbitrary: d cur path rule: less_induct)
  case less
  show ?case
  proof (cases "cur = a")
    case True
    then show ?thesis by (subst walkBack.simps) simp
  next
    case False
    show ?thesis
    proof (cases "prev cur")
      case None
      with False show ?thesis by (subst walkBack.simps) simp
    next
      case (Some c)
      with assms(1) less.prems obtain d0 where d0: "dist c = Some d0" "d = d0 + 1" by fastforce
      from assms(2) d0(1) have "0 \<le> d0" by simp
      with d0(2) have "nat d0 < nat d" by simp
      from less.hyps [OF this d0(1)] obtain r where "walkBack prev a c (path @ [c]) = Some r"
        by blast
      with False Some show ?thesis by (subst walkBack.simps) simp
    qed
  qed
qed

lemma shortestPathBetween_returns: "\<exists>sp. shortestPathBetween p a b = Some sp"
proof -
  obtain dist prev where d: "bfsDistances p a = (dist, prev)" by (cases "bfsDistances p a") auto
  from bfsDistances_inv [of p a] d have inv: "bfsInv p a dist prev []" by simp
  then have l: "\<forall>v u. prev v = Some u \<longrightarrow> (\<exists>d. dist u = Some d \<and> dist v = Some (d + 1))"
    unfolding bfsInv_def by blast
  from inv have "\<forall>v d. dist v = Some d \<longrightarrow> walk p a v d" unfolding bfsInv_def by blast
  then have n: "\<forall>v d. dist v = Some d \<longrightarrow> 0 \<le> d" by (blast dest: walk_nonneg)
  show ?thesis
  proof (cases "dist b")
    case None
    with d show ?thesis by (simp add: shortestPathBetween_def)
  next
    case (Some k)
    from walkBack_returns [OF l n Some] obtain r where "walkBack prev a b [b] = Some r" by blast
    with d Some show ?thesis by (simp add: shortestPathBetween_def)
  qed
qed

section \<open>The clusters of exits\<close>

text \<open>
  What the admission check of the clustering gives: in a finished cluster every pair
  of members, taken in the order of admission, is within the diameter cap.
\<close>

lemma fold_max_le:
  "fold (\<lambda>x acc. max acc (f x)) xs a \<le> (c::int) \<longleftrightarrow> a \<le> c \<and> (\<forall>x \<in> set xs. f x \<le> c)"
  by (induction xs arbitrary: a) auto

lemma fold_fold_max_le:
  "fold (\<lambda>i acc. fold (\<lambda>j acc. max acc (g i j)) (js i) acc) is a \<le> (c::int)
     \<longleftrightarrow> a \<le> c \<and> (\<forall>i \<in> set is. \<forall>j \<in> set (js i). g i j \<le> c)"
  by (induction "is" arbitrary: a) (auto simp: fold_max_le)

definition pairsWithin :: "int list list \<Rightarrow> int \<Rightarrow> nat list \<Rightarrow> bool" where
  "pairsWithin dist cap c = (\<forall>j < length c. \<forall>i < j. dist ! (c ! i) ! (c ! j) \<le> cap)"

lemma nested_max_le:
  assumes "fold (\<lambda>i acc. fold (\<lambda>j acc. max acc (g i j)) [i + 1..<n] acc) [0..<n] 0 \<le> (c::int)"
    and "j < n" and "i < j"
  shows "g i j \<le> c"
  using assms by (simp add: fold_fold_max_le)

lemma diameterWith_le:
  assumes "diameterWith arr idx dist \<le> cap"
  shows "pairsWithin dist cap (arr @ [idx])"
  unfolding pairsWithin_def
proof (intro allI impI)
  fix j i assume j: "j < length (arr @ [idx])" and i: "i < j"
  from assms have "fold (\<lambda>i acc. fold (\<lambda>j acc. max acc (dist ! ((arr @ [idx]) ! i) ! ((arr @ [idx]) ! j)))
        [i + 1..<length (arr @ [idx])] acc) [0..<length (arr @ [idx])] 0 \<le> cap"
    unfolding diameterWith_def Let_def .
  from nested_max_le [where g = "\<lambda>i j. dist ! ((arr @ [idx]) ! i) ! ((arr @ [idx]) ! j)", OF this j i]
  show "dist ! ((arr @ [idx]) ! i) ! ((arr @ [idx]) ! j) \<le> cap" .
qed

lemma pickNearest_admits_gen:
  "fold (\<lambda>idx (best, bestd).
             if diameterWith current idx dist > cap then (best, bestd)
             else (let nd = fold (\<lambda>c nd. min nd (dist ! idx ! c)) current 1000000000
                   in if nd < bestd then (Some idx, nd) else (best, bestd)))
       us (b0, d0) = (Some b, d) \<Longrightarrow> b0 = Some b \<or> diameterWith current b dist \<le> cap"
proof (induction us arbitrary: b0 d0)
  case Nil
  then show ?case by simp
next
  case (Cons a us)
  let ?nd = "fold (\<lambda>c nd. min nd (dist ! a ! c)) current 1000000000"
  show ?case
  proof (cases "\<not> diameterWith current a dist > cap \<and> ?nd < d0")
    case True
    with Cons.prems have "fold (\<lambda>idx (best, bestd).
             if diameterWith current idx dist > cap then (best, bestd)
             else (let nd = fold (\<lambda>c nd. min nd (dist ! idx ! c)) current 1000000000
                   in if nd < bestd then (Some idx, nd) else (best, bestd)))
       us (Some a, ?nd) = (Some b, d)" by (simp add: Let_def)
    from Cons.IH [OF this] True show ?thesis by auto
  next
    case False
    with Cons.prems have "fold (\<lambda>idx (best, bestd).
             if diameterWith current idx dist > cap then (best, bestd)
             else (let nd = fold (\<lambda>c nd. min nd (dist ! idx ! c)) current 1000000000
                   in if nd < bestd then (Some idx, nd) else (best, bestd)))
       us (b0, d0) = (Some b, d)" by (auto simp: Let_def split: if_splits)
    from Cons.IH [OF this] show ?thesis .
  qed
qed

lemma pickNearest_admits:
  assumes "fst (pickNearest S dist current unassigned) = Some b"
  shows "diameterWith current b dist \<le> mechDiameterCap S"
proof -
  obtain r d where r: "pickNearest S dist current unassigned = (r, d)"
    by (cases "pickNearest S dist current unassigned") auto
  with assms have "r = Some b" by simp
  with r pickNearest_admits_gen [where current = current and dist = dist and cap = "mechDiameterCap S"
      and us = unassigned and ?b0.0 = None and ?d0.0 = 1000000000 and b = b and d = d]
  show ?thesis by (simp add: pickNearest_def)
qed

lemma growCluster_props:
  assumes "growCluster S dist current unassigned = (c, u)"
    and "distinct (current @ unassigned)" and "pairsWithin dist (mechDiameterCap S) current"
    and "current \<noteq> []"
  shows "distinct (c @ u) \<and> set (c @ u) = set (current @ unassigned)
     \<and> pairsWithin dist (mechDiameterCap S) c \<and> c \<noteq> []"
  using assms
proof (induction S dist current unassigned rule: growCluster.induct)
  case (1 S dist current unassigned)
  show ?case
  proof (cases "int (length current) < mechMaxExits S")
    case False
    with "1.prems" show ?thesis by simp
  next
    case True
    show ?thesis
    proof (cases "fst (pickNearest S dist current unassigned)")
      case None
      with True "1.prems" show ?thesis by simp
    next
      case (Some best)
      then have b: "best \<in> set unassigned" by (rule pickNearest_member)
      from pickNearest_admits [OF Some]
      have pw: "pairsWithin dist (mechDiameterCap S) (current @ [best])"
        by (rule diameterWith_le)
      have d1: "distinct ((current @ [best]) @ set_delete best unassigned)"
        using "1.prems"(2) b by (auto simp: set_delete_def distinct_removeAll)
      have s1: "set ((current @ [best]) @ set_delete best unassigned) = set (current @ unassigned)"
        using b by (auto simp: set_delete_def)
      show ?thesis
      proof (cases "mstLengthApprox (current @ [best]) dist > mechMstCap S")
        case over: True
        with True Some "1.prems"(1)
        have e: "c = current" "u = set_add best (set_delete best unassigned)" by simp_all
        have "u = set_delete best unassigned @ [best]" using e by (simp add: set_add_def set_delete_def)
        with d1 s1 e(1) "1.prems"(3,4) show ?thesis by auto
      next
        case False
        with True Some "1.prems"(1)
        have g: "growCluster S dist (current @ [best]) (set_delete best unassigned) = (c, u)" by simp
        from "1.IH" [OF True Some False g d1 pw] s1 show ?thesis by simp
      qed
    qed
  qed
qed

lemma clusterLoop_props:
  assumes "distinct (concat cs @ us)"
    and "\<forall>c \<in> set cs. c \<noteq> [] \<and> pairsWithin dist (mechDiameterCap S) c"
  shows "distinct (concat (clusterLoop S dist us cs))
     \<and> set (concat (clusterLoop S dist us cs)) = set (concat cs @ us)
     \<and> (\<forall>c \<in> set (clusterLoop S dist us cs). c \<noteq> [] \<and> pairsWithin dist (mechDiameterCap S) c)"
  using assms
proof (induction S dist us cs rule: clusterLoop.induct)
  case (1 S dist clusters)
  then show ?case by simp
next
  case (2 S dist seedIndex rest clusters)
  obtain current u where g: "growCluster S dist [seedIndex] rest = (current, u)"
    by (cases "growCluster S dist [seedIndex] rest") auto
  have "distinct ([seedIndex] @ rest)" using "2.prems"(1) by simp
  moreover have "pairsWithin dist (mechDiameterCap S) [seedIndex]" by (simp add: pairsWithin_def)
  ultimately have p: "distinct (current @ u) \<and> set (current @ u) = set ([seedIndex] @ rest)
     \<and> pairsWithin dist (mechDiameterCap S) current \<and> current \<noteq> []"
    by (intro growCluster_props [OF g]) simp_all
  have d: "distinct (concat (clusters @ [current]) @ u)"
    using p "2.prems"(1) by auto
  have a: "\<forall>c \<in> set (clusters @ [current]). c \<noteq> [] \<and> pairsWithin dist (mechDiameterCap S) c"
    using p "2.prems"(2) by auto
  have s: "set (concat (clusters @ [current]) @ u) = set (concat clusters @ seedIndex # rest)"
    using p by auto
  from "2.IH" [OF g [symmetric] d a] s g show ?case by simp
qed

text \<open>With a symmetric matrix the bound holds for the members in either order.\<close>

lemma pairsWithin_all:
  assumes "pairsWithin dist cap c" and "distinct c"
    and "\<forall>u \<in> set c. \<forall>v \<in> set c. dist ! u ! v = dist ! v ! u"
    and "u \<in> set c" and "v \<in> set c" and "u \<noteq> v"
  shows "dist ! u ! v \<le> cap"
proof -
  from assms(4,5) obtain i j where i: "i < length c" "c ! i = u" and j: "j < length c" "c ! j = v"
    by (auto simp: in_set_conv_nth)
  with assms(6) have "i \<noteq> j" by auto
  then consider "i < j" | "j < i" by arith
  then show ?thesis
  proof cases
    case 1
    with assms(1) i j show ?thesis by (auto simp: pairsWithin_def)
  next
    case 2
    with assms(1) i j have "dist ! v ! u \<le> cap" by (auto simp: pairsWithin_def)
    with assms(3,4,5) show ?thesis by simp
  qed
qed

section \<open>The routes of the mechanic clusters\<close>

text \<open>The routes of the clusters: one route for each tree edge, in the order of the edges.\<close>

definition routeEdges :: "route list \<Rightarrow> (nat \<times> nat) list" where
  "routeEdges rs = map (\<lambda>r. (rt_from r, rt_to r)) rs"

lemma clusterRoutes_returns:
  "\<exists>rt rs. clusterRoutes p exits es routeTiles routes = Some (rt, rs)
     \<and> routeEdges rs = routeEdges routes @ es"
proof (induction es arbitrary: routeTiles routes)
  case Nil
  show ?case by simp
next
  case (Cons e es)
  obtain u v where e: "e = (u, v)" by (cases e)
  obtain sp where sp: "shortestPathBetween p (ex_nodeId (exits ! u)) (ex_nodeId (exits ! v)) = Some sp"
    using shortestPathBetween_returns by blast
  from Cons.IH [of "fold set_add sp routeTiles" "routes @ [\<lparr>rt_from = u, rt_to = v, pathIds = sp\<rparr>]"]
  show ?case using e sp by (simp add: routeEdges_def)
qed

lemma mechClustersOf_returns:
  "\<exists>mcs. mechClustersOf p exits dist cs = Some mcs
     \<and> map mc_exits mcs = filter (\<lambda>c. c \<noteq> []) cs
     \<and> (\<forall>mc \<in> set mcs. routeEdges (mc_routes mc) = treeEdges dist (mc_exits mc))"
proof (induction cs)
  case Nil
  show ?case by simp
next
  case (Cons c cs)
  from Cons.IH obtain mcs where m: "mechClustersOf p exits dist cs = Some mcs"
    "map mc_exits mcs = filter (\<lambda>c. c \<noteq> []) cs"
    "\<forall>mc \<in> set mcs. routeEdges (mc_routes mc) = treeEdges dist (mc_exits mc)" by blast
  show ?case
  proof (cases "c = []")
    case True
    with m show ?thesis by simp
  next
    case False
    from clusterRoutes_returns [of p exits "treeEdges dist c" "[]" "[]"]
    obtain rt rs where r: "clusterRoutes p exits (treeEdges dist c) [] [] = Some (rt, rs)"
      "routeEdges rs = treeEdges dist c" by (auto simp: routeEdges_def)
    with False m show ?thesis by simp
  qed
qed

lemma scanExits_total:
  "\<forall>k \<in> set ks. g (fst k) (snd k) \<noteq> None \<Longrightarrow> \<exists>exits. scanExits p g ks = Inr exits"
proof (induction ks)
  case Nil
  show ?case by simp
next
  case (Cons k ks)
  obtain x y where k: "k = (x, y)" by (cases k) auto
  from Cons.prems k obtain els where els: "g x y = Some els" by auto
  from Cons.IH Cons.prems obtain exits where "scanExits p g ks = Inr exits" by auto
  with els k show ?case by simp
qed

text \<open>
  C5. The route builder returns, every exit is a member of a cluster, and for every
  cluster of \<open>k\<close> members: any two members are at a distance below the sentinel (the
  diameter cap of the settings is below it), there are \<open>k - 1\<close> routes (none for
  \<open>k \<le> 1\<close>), their edges are a spanning tree of the members, and the sum of the
  distances of the edges is the least that a spanning tree of the members has under the
  same distance matrix.
\<close>

theorem route_tree_is_minimum_spanning_tree:
  assumes "buildPathGraph S w h getTile = Inr built"
    and "\<forall>k \<in> set (grid w h). getTile (fst k) (snd k) \<noteq> None"
    and "mechDiameterCap S < 1000000000"
  shows "\<exists>exits mcs.
       buildMechanicRoutes (pruneSceneryBranches built) S w h getTile = Some (Inr (exits, mcs))
     \<and> scanExits (pruneSceneryBranches built) getTile (grid w h) = Inr exits
     \<and> map mc_exits mcs
         = clusterLoop S (distMatrix (pruneSceneryBranches built) exits) [0..<length exits] []
     \<and> (\<forall>i < length exits. \<exists>mc \<in> set mcs. i \<in> set (mc_exits mc))
     \<and> (\<forall>mc \<in> set mcs.
           (\<forall>u \<in> set (mc_exits mc). \<forall>v \<in> set (mc_exits mc). u \<noteq> v \<longrightarrow>
              distMatrix (pruneSceneryBranches built) exits ! u ! v < 1000000000)
         \<and> length (mc_routes mc) = length (mc_exits mc) - 1
         \<and> spanningTree (mc_exits mc) (routeEdges (mc_routes mc))
         \<and> (\<forall>T. spanningTree (mc_exits mc) T \<longrightarrow>
              routeWeight (distMatrix (pruneSceneryBranches built) exits) (routeEdges (mc_routes mc))
                \<le> routeWeight (distMatrix (pruneSceneryBranches built) exits) T))"
proof -
  let ?p = "pruneSceneryBranches built"
  obtain exits where ex: "scanExits ?p getTile (grid w h) = Inr exits"
    using scanExits_total [OF assms(2)] by blast
  let ?dist = "distMatrix ?p exits"
  let ?cs = "clusterLoop S ?dist [0..<length exits] []"
  have cl: "distinct (concat ?cs)" "set (concat ?cs) = {0..<length exits}"
    "\<forall>c \<in> set ?cs. c \<noteq> [] \<and> pairsWithin ?dist (mechDiameterCap S) c"
    using clusterLoop_props [of "[]" "[0..<length exits]" ?dist S] by simp_all
  then have ne: "filter (\<lambda>c. c \<noteq> []) ?cs = ?cs" by simp
  from mechClustersOf_returns [of ?p exits ?dist ?cs] ne obtain mcs where
    m: "mechClustersOf ?p exits ?dist ?cs = Some mcs" "map mc_exits mcs = ?cs"
    "\<forall>mc \<in> set mcs. routeEdges (mc_routes mc) = treeEdges ?dist (mc_exits mc)" by auto
  have b: "buildMechanicRoutes ?p S w h getTile = Some (Inr (exits, mcs))"
    using ex m(1) by (simp add: buildMechanicRoutes_def Let_def)
  have cover: "\<exists>mc \<in> set mcs. i \<in> set (mc_exits mc)" if "i < length exits" for i
  proof -
    from that cl(2) have "i \<in> set (concat ?cs)" by simp
    then obtain c where "c \<in> set ?cs" "i \<in> set c" by auto
    with m(2) show ?thesis by (metis (no_types, lifting) image_iff list.set_map)
  qed
  have ok: "graphOk (edges ?p)" and rg: "\<forall>v \<in> set (validNodeIds ?p). v < length (edges ?p)"
    using pruned_in_range [OF assms(1)] by simp_all
  have ev: "\<forall>e \<in> set exits. ex_nodeId e \<in> set (validNodeIds ?p)"
    using ex by (rule scanExits_valid)
  have sym: "?dist ! i ! j = ?dist ! j ! i" if "i < length exits" "j < length exits" for i j
    using distMatrix_symmetric [OF ok rg ev that] .
  have each: "(\<forall>u \<in> set (mc_exits mc). \<forall>v \<in> set (mc_exits mc). u \<noteq> v \<longrightarrow> ?dist ! u ! v < 1000000000)
         \<and> length (mc_routes mc) = length (mc_exits mc) - 1
         \<and> spanningTree (mc_exits mc) (routeEdges (mc_routes mc))
         \<and> (\<forall>T. spanningTree (mc_exits mc) T \<longrightarrow>
              routeWeight ?dist (routeEdges (mc_routes mc)) \<le> routeWeight ?dist T)"
    if mc: "mc \<in> set mcs" for mc
  proof -
    let ?c = "mc_exits mc"
    from mc m(2) have cin: "?c \<in> set ?cs" by (metis image_eqI list.set_map)
    with cl(1) have d: "distinct ?c" by (auto simp: distinct_concat_iff)
    from cin cl(2) have r: "\<forall>u \<in> set ?c. u < length exits" by auto
    from cin cl(3) have pw: "pairsWithin ?dist (mechDiameterCap S) ?c" by simp
    have s: "\<forall>u \<in> set ?c. \<forall>v \<in> set ?c. ?dist ! u ! v = ?dist ! v ! u"
      using r sym by simp
    have f: "\<forall>u \<in> set ?c. \<forall>v \<in> set ?c. u \<noteq> v \<longrightarrow> ?dist ! u ! v < 1000000000"
    proof (intro ballI impI)
      fix u v assume "u \<in> set ?c" "v \<in> set ?c" "u \<noteq> v"
      from pairsWithin_all [OF pw d s this] assms(3) show "?dist ! u ! v < 1000000000" by simp
    qed
    from m(3) mc have re: "routeEdges (mc_routes mc) = treeEdges ?dist ?c" by simp
    then have "length (mc_routes mc) = length (treeEdges ?dist ?c)"
      by (metis length_map routeEdges_def)
    with prim_minimum_spanning_tree [OF d f s] re f show ?thesis by simp
  qed
  from b ex m(2) cover each show ?thesis by blast
qed

lemma lineBuilt_built: "buildPathGraph defaultSettings 5 1 lineMap = Inr lineBuilt"
proof -
  have "\<exists>p. buildPathGraph defaultSettings 5 1 lineMap = Inr p"
    by (rule buildPathGraph_returns) (simp add: defaultSettings_def)
  then show ?thesis by (auto simp: lineBuilt_def)
qed

lemma line_routes:
  "buildMechanicRoutes (pruneSceneryBranches lineBuilt) defaultSettings 5 1 lineMap
     = Some (Inr ([\<lparr>ex_nodeId = 0, ex_x = 0, ex_y = 0, ex_rideId = 0\<rparr>,
                   \<lparr>ex_nodeId = 2, ex_x = 2, ex_y = 0, ex_rideId = 0\<rparr>,
                   \<lparr>ex_nodeId = 4, ex_x = 4, ex_y = 0, ex_rideId = 0\<rparr>],
                  [\<lparr>mc_exits = [0, 1, 2], mc_tiles = [0, 1, 2, 3, 4],
                    mc_routes = [\<lparr>rt_from = 0, rt_to = 1, pathIds = [0, 1, 2]\<rparr>,
                                 \<lparr>rt_from = 1, rt_to = 2, pathIds = [2, 3, 4]\<rparr>]\<rparr>]))"
  by code_simp

lemma line_spanning: "spanningTree [0, 1, 2] [(0, 1), (0, 2)]"
proof -
  let ?T = "[(0, 1), (0, 2)] :: (nat \<times> nat) list"
  have a: "0 \<in> reachable ?T {u}" "1 \<in> reachable ?T {u}" "2 \<in> reachable ?T {u}" if "0 \<in> reachable ?T {u}" for u
    using that by (auto intro: reachable.fwd)
  have 0: "0 \<in> reachable ?T {0}" by (rule reachable.base) simp
  have 1: "0 \<in> reachable ?T {1}"
  proof -
    have "1 \<in> reachable ?T {1}" by (rule reachable.base) simp
    moreover have "(0, 1) \<in> set ?T" by simp
    ultimately show ?thesis by (rule reachable.bwd)
  qed
  have 2: "0 \<in> reachable ?T {2}"
  proof -
    have "2 \<in> reachable ?T {2}" by (rule reachable.base) simp
    moreover have "(0, 2) \<in> set ?T" by simp
    ultimately show ?thesis by (rule reachable.bwd)
  qed
  show ?thesis using a [OF 0] a [OF 1] a [OF 2] by (simp add: spanningTree_def)
qed

lemma line_weights:
  "lineDist = [[1000000000, 2, 4], [2, 1000000000, 2], [4, 2, 1000000000]]"
  "routeWeight lineDist [(0, 1), (1, 2)] = 4"
  "routeWeight lineDist [(0, 1), (0, 2)] = 6"
  by code_simp+

theorem route_tree_is_minimum_spanning_tree_witness:
  "buildPathGraph defaultSettings 5 1 lineMap = Inr lineBuilt
   \<and> list_all (\<lambda>k. lineMap (fst k) (snd k) \<noteq> None) (grid 5 1)
   \<and> mechDiameterCap defaultSettings < 1000000000
   \<and> map_option (map_sum id (map mc_exits \<circ> snd))
        (buildMechanicRoutes (pruneSceneryBranches lineBuilt) defaultSettings 5 1 lineMap)
       = Some (Inr [[0, 1, 2]])
   \<and> map_option (map_sum id (map (routeEdges \<circ> mc_routes) \<circ> snd))
        (buildMechanicRoutes (pruneSceneryBranches lineBuilt) defaultSettings 5 1 lineMap)
       = Some (Inr [[(0, 1), (1, 2)]])
   \<and> spanningTree [0, 1, 2] [(0, 1), (1, 2)]
   \<and> routeWeight lineDist [(0, 1), (1, 2)] = 4
   \<and> spanningTree [0, 1, 2] [(0, 1), (0, 2)]
   \<and> routeWeight lineDist [(0, 1), (0, 2)] = 6
   \<and> routeWeight lineDist [(0, 1), (1, 2)] \<le> routeWeight lineDist [(0, 1), (0, 2)]"
proof -
  let ?p = "pruneSceneryBranches lineBuilt"
  have a: "\<forall>k \<in> set (grid 5 1). lineMap (fst k) (snd k) \<noteq> None" by (simp add: lineMap_def)
  have c: "mechDiameterCap defaultSettings < 1000000000" by (simp add: defaultSettings_def)
  from route_tree_is_minimum_spanning_tree [OF lineBuilt_built a c]
  obtain exits mcs where
    b: "buildMechanicRoutes ?p defaultSettings 5 1 lineMap = Some (Inr (exits, mcs))"
    and s: "scanExits ?p lineMap (grid 5 1) = Inr exits"
    and e: "\<forall>mc \<in> set mcs.
           spanningTree (mc_exits mc) (routeEdges (mc_routes mc))
         \<and> (\<forall>T. spanningTree (mc_exits mc) T \<longrightarrow>
              routeWeight (distMatrix ?p exits) (routeEdges (mc_routes mc))
                \<le> routeWeight (distMatrix ?p exits) T)"
    by blast
  from b line_routes have m: "mcs =
      [\<lparr>mc_exits = [0, 1, 2], mc_tiles = [0, 1, 2, 3, 4],
        mc_routes = [\<lparr>rt_from = 0, rt_to = 1, pathIds = [0, 1, 2]\<rparr>,
                     \<lparr>rt_from = 1, rt_to = 2, pathIds = [2, 3, 4]\<rparr>]\<rparr>]" by simp
  from s have d: "distMatrix ?p exits = lineDist" by (simp add: lineDist_def lineExits_def)
  from e m d have t: "spanningTree [0, 1, 2] [(0, 1), (1, 2)]"
    and l: "\<forall>T. spanningTree [0, 1, 2] T \<longrightarrow> routeWeight lineDist [(0, 1), (1, 2)] \<le> routeWeight lineDist T"
    by (simp_all add: routeEdges_def)
  from l line_spanning
  have le: "routeWeight lineDist [(0, 1), (1, 2)] \<le> routeWeight lineDist [(0, 1), (0, 2)]" by blast
  have x: "map_option (map_sum id (map mc_exits \<circ> snd))
        (buildMechanicRoutes ?p defaultSettings 5 1 lineMap) = Some (Inr [[0, 1, 2]])"
    "map_option (map_sum id (map (routeEdges \<circ> mc_routes) \<circ> snd))
        (buildMechanicRoutes ?p defaultSettings 5 1 lineMap) = Some (Inr [[(0, 1), (1, 2)]])"
    using b m by (simp_all add: routeEdges_def)
  from lineBuilt_built a c x t line_weights(2,3) line_spanning le show ?thesis
    unfolding list_all_iff by blast
qed

end
